theory Spec2Isabelle
  imports Main "HOL-Library.Word"
begin

section \<open>JavaScript strings\<close>

text \<open>
  The playlist manager is a React component written in TypeScript. Its strings are
  JavaScript strings: finite sequences of 16-bit code units. A code unit is a
  \<open>16 word\<close>, a string is a list of them. The regular expressions of the component
  carry no \<open>u\<close> flag, so they, too, work on code units.
\<close>

type_synonym jschar = "16 word"
type_synonym jsstring = "jschar list"

definition js :: "string \<Rightarrow> jsstring" where
  "js s = map of_char s"

abbreviation TAB :: jschar where "TAB \<equiv> 0x09"
abbreviation LF :: jschar where "LF \<equiv> 0x0A"
abbreviation CR :: jschar where "CR \<equiv> 0x0D"
abbreviation SPACE :: jschar where "SPACE \<equiv> 0x20"
abbreviation DOLLAR :: jschar where "DOLLAR \<equiv> 0x24"
abbreviation PERCENT :: jschar where "PERCENT \<equiv> 0x25"
abbreviation AMPERSAND :: jschar where "AMPERSAND \<equiv> 0x26"
abbreviation APOSTROPHE :: jschar where "APOSTROPHE \<equiv> 0x27"
abbreviation PLUS :: jschar where "PLUS \<equiv> 0x2B"
abbreviation DOT :: jschar where "DOT \<equiv> 0x2E"
abbreviation SLASH :: jschar where "SLASH \<equiv> 0x2F"
abbreviation LESS :: jschar where "LESS \<equiv> 0x3C"
abbreviation GREATER :: jschar where "GREATER \<equiv> 0x3E"
abbreviation BACKSLASH :: jschar where "BACKSLASH \<equiv> 0x5C"
abbreviation BACKTICK :: jschar where "BACKTICK \<equiv> 0x60"
abbreviation PIPE :: jschar where "PIPE \<equiv> 0x7C"

text \<open>The only exception the codec can raise is the \<open>URIError\<close> of the URI functions.\<close>

datatype error = URIError

subsection \<open>String methods\<close>

text \<open>\<open>s.startsWith(p)\<close>.\<close>

definition startsWith :: "jsstring \<Rightarrow> jsstring \<Rightarrow> bool" where
  "startsWith s p = (take (length p) s = p)"

text \<open>
  \<open>s.split(sep)\<close> for a separator of one code unit. The result is never empty:
  \<open>"".split(sep)\<close> is \<open>[""]\<close>.
\<close>

fun split_on :: "jschar \<Rightarrow> jsstring \<Rightarrow> jsstring list" where
  "split_on sep [] = [[]]"
| "split_on sep (c # cs) =
     (if c = sep then [] # split_on sep cs
      else (case split_on sep cs of
              [] \<Rightarrow> [[c]]
            | w # ws \<Rightarrow> (c # w) # ws))"

text \<open>\<open>xs.join(sep)\<close> for a separator of one code unit.\<close>

fun join :: "jschar \<Rightarrow> jsstring list \<Rightarrow> jsstring" where
  "join sep [] = []"
| "join sep [x] = x"
| "join sep (x # y # ys) = x @ sep # join sep (y # ys)"

text \<open>
  \<open>xs.pop()\<close> as an expression: the last element, \<open>undefined\<close> (here \<open>None\<close>)
  on an empty array.
\<close>

definition pop :: "'a list \<Rightarrow> 'a option" where
  "pop xs = (if xs = [] then None else Some (last xs))"

text \<open>
  The line terminators of ECMAScript (the characters that \<open>.\<close> of a regular
  expression does not match) and its white space; \<open>trim\<close> strips both.
\<close>

definition isLineTerminator :: "jschar \<Rightarrow> bool" where
  "isLineTerminator c = (c = LF \<or> c = CR \<or> c = 0x2028 \<or> c = 0x2029)"

definition isWhiteSpace :: "jschar \<Rightarrow> bool" where
  "isWhiteSpace c =
     (c = TAB \<or> c = 0x0B \<or> c = 0x0C \<or> c = SPACE \<or> c = 0xA0 \<or> c = 0x1680
      \<or> (0x2000 \<le> c \<and> c \<le> 0x200A) \<or> c = 0x202F \<or> c = 0x205F \<or> c = 0x3000
      \<or> c = 0xFEFF)"

definition isTrimmed :: "jschar \<Rightarrow> bool" where
  "isTrimmed c = (isWhiteSpace c \<or> isLineTerminator c)"

definition trim :: "jsstring \<Rightarrow> jsstring" where
  "trim s = rev (dropWhile isTrimmed (rev (dropWhile isTrimmed s)))"

text \<open>
  \<open>s.indexOf(p)\<close>, with \<open>None\<close> for \<open>-1\<close>, and \<open>s.includes(p)\<close>.
\<close>

fun indexOf :: "jsstring \<Rightarrow> jsstring \<Rightarrow> nat option" where
  "indexOf [] p = (if p = [] then Some 0 else None)"
| "indexOf (c # cs) p =
     (if startsWith (c # cs) p then Some 0 else map_option Suc (indexOf cs p))"

definition includes_str :: "jsstring \<Rightarrow> jsstring \<Rightarrow> bool" where
  "includes_str s p = (indexOf s p \<noteq> None)"

text \<open>
  \<open>s.replace(pattern, replacement)\<close> with a string pattern: only the first occurrence
  is replaced, and in the replacement text \<open>$$\<close>, \<open>$&\<close>, \<open>$`\<close> and \<open>$'\<close> stand for
  a dollar sign, the matched text, the text before it and the text after it
  (references to capture groups stay as they are, a string pattern has none).
\<close>

fun GetSubstitution :: "jsstring \<Rightarrow> jsstring \<Rightarrow> jsstring \<Rightarrow> jsstring \<Rightarrow> jsstring" where
  "GetSubstitution matched preceding following (c # d # t) =
     (if c = DOLLAR \<and> d = DOLLAR then DOLLAR # GetSubstitution matched preceding following t
      else if c = DOLLAR \<and> d = BACKTICK then
        preceding @ GetSubstitution matched preceding following t
      else if c = DOLLAR \<and> d = AMPERSAND then
        matched @ GetSubstitution matched preceding following t
      else if c = DOLLAR \<and> d = APOSTROPHE then
        following @ GetSubstitution matched preceding following t
      else c # GetSubstitution matched preceding following (d # t))"
| "GetSubstitution matched preceding following t = t"

definition replace_first :: "jsstring \<Rightarrow> jsstring \<Rightarrow> jsstring \<Rightarrow> jsstring" where
  "replace_first s pat repl =
     (case indexOf s pat of
        None \<Rightarrow> s
      | Some pos \<Rightarrow>
          (let preceding = take pos s; following = drop (pos + length pat) s
           in preceding @ GetSubstitution pat preceding following repl @ following))"

text \<open>\<open>s.replace(/\+/g, " ")\<close>: every plus sign becomes a space.\<close>

definition replace_plus :: "jsstring \<Rightarrow> jsstring" where
  "replace_plus s = map (\<lambda>c. if c = PLUS then SPACE else c) s"

text \<open>
  \<open>s.replace(/%20/g, "+")\<close>: the occurrences of \<open>%20\<close> are found from left to right,
  each search resuming after the previous occurrence.
\<close>

fun replace_pct20 :: "jsstring \<Rightarrow> jsstring" where
  "replace_pct20 (a # b # c # t) =
     (if a = PERCENT \<and> b = 0x32 \<and> c = 0x30 then PLUS # replace_pct20 t
      else a # replace_pct20 (b # c # t))"
| "replace_pct20 t = t"

section \<open>The URI functions\<close>

text \<open>
  \<open>encodeURIComponent\<close> and \<open>decodeURIComponent\<close> are built into the language; they
  are modelled after the abstract operations \<open>Encode\<close> and \<open>Decode\<close> of the ECMAScript
  specification. Code points and octets are natural numbers.
\<close>

subsection \<open>UTF-8 and UTF-16\<close>

definition isLeadingSurrogate :: "jschar \<Rightarrow> bool" where
  "isLeadingSurrogate c = (0xD800 \<le> c \<and> c \<le> 0xDBFF)"

definition isTrailingSurrogate :: "jschar \<Rightarrow> bool" where
  "isTrailingSurrogate c = (0xDC00 \<le> c \<and> c \<le> 0xDFFF)"

text \<open>
  A string is well formed when every surrogate in it is half of a pair, a leading
  surrogate followed by a trailing one (\<open>isWellFormed\<close> in ECMAScript). The text of a
  playlist file is what \<open>getFileContent\<close> of the storage client returns,
  \<open>await response.text()\<close>: the body of the response decoded as UTF-8, in which every
  character is a code point and so a single code unit or a pair. It is well formed.
\<close>

fun wellFormed :: "jsstring \<Rightarrow> bool" where
  "wellFormed [] = True"
| "wellFormed (c # cs) =
     (if isLeadingSurrogate c then
        (case cs of [] \<Rightarrow> False | d # ds \<Rightarrow> isTrailingSurrogate d \<and> wellFormed ds)
      else \<not> isTrailingSurrogate c \<and> wellFormed cs)"

definition isSurrogate :: "jschar \<Rightarrow> bool" where
  "isSurrogate c = (isLeadingSurrogate c \<or> isTrailingSurrogate c)"

definition UTF16SurrogatePairToCodePoint :: "jschar \<Rightarrow> jschar \<Rightarrow> nat" where
  "UTF16SurrogatePairToCodePoint lead trail =
     (unat lead - 0xD800) * 0x400 + (unat trail - 0xDC00) + 0x10000"

definition UTF16EncodeCodePoint :: "nat \<Rightarrow> jsstring" where
  "UTF16EncodeCodePoint cp =
     (if cp \<le> 0xFFFF then [of_nat cp]
      else [of_nat ((cp - 0x10000) div 0x400 + 0xD800),
            of_nat ((cp - 0x10000) mod 0x400 + 0xDC00)])"

definition utf8_encode :: "nat \<Rightarrow> nat list" where
  "utf8_encode cp =
     (if cp < 0x80 then [cp]
      else if cp < 0x800 then [0xC0 + cp div 0x40, 0x80 + cp mod 0x40]
      else if cp < 0x10000 then
        [0xE0 + cp div 0x1000, 0x80 + (cp div 0x40) mod 0x40, 0x80 + cp mod 0x40]
      else
        [0xF0 + cp div 0x40000, 0x80 + (cp div 0x1000) mod 0x40,
         0x80 + (cp div 0x40) mod 0x40, 0x80 + cp mod 0x40])"

definition isContinuation :: "nat \<Rightarrow> bool" where
  "isContinuation b = (0x80 \<le> b \<and> b \<le> 0xBF)"

text \<open>
  The code point of a sequence of octets that is a valid UTF-8 encoding, \<open>None\<close> for
  any other sequence: a continuation octet out of range, an overlong form, a surrogate,
  a value above \<open>0x10FFFF\<close>.
\<close>

fun utf8_decode :: "nat list \<Rightarrow> nat option" where
  "utf8_decode [b0, b1] =
     (let v = (b0 - 0xC0) * 0x40 + (b1 - 0x80)
      in if 0xC0 \<le> b0 \<and> b0 \<le> 0xDF \<and> isContinuation b1 \<and> 0x80 \<le> v then Some v else None)"
| "utf8_decode [b0, b1, b2] =
     (let v = (b0 - 0xE0) * 0x1000 + (b1 - 0x80) * 0x40 + (b2 - 0x80)
      in if 0xE0 \<le> b0 \<and> b0 \<le> 0xEF \<and> isContinuation b1 \<and> isContinuation b2
            \<and> 0x800 \<le> v \<and> \<not> (0xD800 \<le> v \<and> v \<le> 0xDFFF)
         then Some v else None)"
| "utf8_decode [b0, b1, b2, b3] =
     (let v = (b0 - 0xF0) * 0x40000 + (b1 - 0x80) * 0x1000 + (b2 - 0x80) * 0x40 + (b3 - 0x80)
      in if 0xF0 \<le> b0 \<and> b0 \<le> 0xF7 \<and> isContinuation b1 \<and> isContinuation b2
            \<and> isContinuation b3 \<and> 0x10000 \<le> v \<and> v \<le> 0x10FFFF
         then Some v else None)"
| "utf8_decode bs = None"

subsection \<open>Hexadecimal escapes\<close>

definition hexDigit :: "nat \<Rightarrow> jschar" where
  "hexDigit d = (if d < 10 then of_nat (0x30 + d) else of_nat (0x41 + (d - 10)))"

definition hexValue :: "jschar \<Rightarrow> nat option" where
  "hexValue c =
     (if 0x30 \<le> c \<and> c \<le> 0x39 then Some (unat c - 0x30)
      else if 0x41 \<le> c \<and> c \<le> 0x46 then Some (unat c - 0x41 + 10)
      else if 0x61 \<le> c \<and> c \<le> 0x66 then Some (unat c - 0x61 + 10)
      else None)"

text \<open>An octet as \<open>%XY\<close> with upper-case digits, and a sequence of octets.\<close>

definition escapeOctet :: "nat \<Rightarrow> jsstring" where
  "escapeOctet b = [PERCENT, hexDigit (b div 16), hexDigit (b mod 16)]"

definition escapeOctets :: "nat list \<Rightarrow> jsstring" where
  "escapeOctets bs = concat (map escapeOctet bs)"

text \<open>
  \<open>ParseHexOctet\<close>: the octet written by the two hexadecimal digits at the head of the
  string and the rest of the string, \<open>None\<close> when there are no two such digits.
\<close>

fun ParseHexOctet :: "jsstring \<Rightarrow> (nat \<times> jsstring) option" where
  "ParseHexOctet (x # y # rest) =
     (case (hexValue x, hexValue y) of
        (Some h, Some l) \<Rightarrow> Some (16 * h + l, rest)
      | _ \<Rightarrow> None)"
| "ParseHexOctet s = None"

text \<open>The \<open>n\<close> continuation escapes \<open>%XY\<close> that follow the first escape of a sequence.\<close>

fun continuationOctets :: "nat \<Rightarrow> jsstring \<Rightarrow> (nat list \<times> jsstring) option" where
  "continuationOctets 0 s = Some ([], s)"
| "continuationOctets (Suc n) [] = None"
| "continuationOctets (Suc n) (c # cs) =
     (if c \<noteq> PERCENT then None
      else (case ParseHexOctet cs of
              None \<Rightarrow> None
            | Some (b, rest) \<Rightarrow>
                (case continuationOctets n rest of
                   None \<Rightarrow> None
                 | Some (bs, rest') \<Rightarrow> Some (b # bs, rest'))))"

text \<open>The number of leading 1 bits of an octet.\<close>

definition leadingOnes :: "nat \<Rightarrow> nat" where
  "leadingOnes b =
     (if b < 0x80 then 0 else if b < 0xC0 then 1 else if b < 0xE0 then 2
      else if b < 0xF0 then 3 else if b < 0xF8 then 4 else 5)"

subsection \<open>Decode\<close>

text \<open>
  \<open>Decode\<close> with an empty set of reserved characters, as \<open>decodeURIComponent\<close> calls
  it. A code unit other than \<open>%\<close> is copied. A \<open>%\<close> must begin an escape \<open>%XY\<close>;
  an octet below \<open>0x80\<close> is the code unit itself, any other octet must begin a UTF-8
  sequence of two to four escaped octets, which is replaced by the UTF-16 form of its
  code point. Everything else raises \<open>URIError\<close>.
\<close>

function Decode :: "jsstring \<Rightarrow> error + jsstring" where
  "Decode [] = Inr []"
| "Decode (c # cs) =
     (if c \<noteq> PERCENT then
        (case Decode cs of Inl e \<Rightarrow> Inl e | Inr r \<Rightarrow> Inr (c # r))
      else
        (case ParseHexOctet cs of
           None \<Rightarrow> Inl URIError
         | Some (b, rest) \<Rightarrow>
             (if leadingOnes b = 0 then
                (case Decode rest of Inl e \<Rightarrow> Inl e | Inr r \<Rightarrow> Inr (of_nat b # r))
              else if leadingOnes b = 1 \<or> leadingOnes b > 4 then Inl URIError
              else
                (case continuationOctets (leadingOnes b - 1) rest of
                   None \<Rightarrow> Inl URIError
                 | Some (bs, rest') \<Rightarrow>
                     (case utf8_decode (b # bs) of
                        None \<Rightarrow> Inl URIError
                      | Some v \<Rightarrow>
                          (case Decode rest' of
                             Inl e \<Rightarrow> Inl e
                           | Inr r \<Rightarrow> Inr (UTF16EncodeCodePoint v @ r)))))))"
  by pat_completeness auto
termination
proof (relation "measure length")
  have hex: "length rest < length cs" if "ParseHexOctet cs = Some (b, rest)"
    for cs :: jsstring and b rest
    using that by (cases cs rule: ParseHexOctet.cases) (auto split: option.splits)
  have cont: "length rest' \<le> length rest" if "continuationOctets n rest = Some (bs, rest')"
    for n and rest rest' :: jsstring and bs
    using that
  proof (induction n rest arbitrary: bs rest' rule: continuationOctets.induct)
    case (3 n c cs)
    from "3.prems" obtain b r bs' where p: "ParseHexOctet cs = Some (b, r)"
      and q: "continuationOctets n r = Some (bs', rest')" and c: "c = PERCENT"
      by (auto split: if_splits option.splits)
    from c have "\<not> c \<noteq> PERCENT" by simp
    from "3.IH" [OF this p refl q] have "length rest' \<le> length r" .
    with hex [OF p] show ?case by simp
  qed simp_all
  show "wf (measure length)" by simp
  show "(cs, c # cs) \<in> measure length" for c :: jschar and cs by simp
  show "(rest, c # cs) \<in> measure length" if "ParseHexOctet cs = Some x" "(b, rest) = x"
    for c :: jschar and cs x b rest
    using hex [of cs b rest] that by simp
  show "(rest', c # cs) \<in> measure length"
    if "ParseHexOctet cs = Some x" "(b, rest) = x"
      "continuationOctets (leadingOnes b - 1) rest = Some y" "(bs, rest') = y"
    for c :: jschar and cs x b rest y bs rest'
    using hex [of cs b rest] cont [of "leadingOnes b - 1" rest bs rest'] that by simp
qed

definition decodeURIComponent :: "jsstring \<Rightarrow> error + jsstring" where
  "decodeURIComponent s = Decode s"

subsection \<open>Encode\<close>

text \<open>
  The characters that \<open>encodeURIComponent\<close> leaves as they are: letters, digits and
  \<open>- _ . ! ~ * ' ( )\<close>.
\<close>

definition isUnescaped :: "jschar \<Rightarrow> bool" where
  "isUnescaped c =
     ((0x41 \<le> c \<and> c \<le> 0x5A) \<or> (0x61 \<le> c \<and> c \<le> 0x7A) \<or> (0x30 \<le> c \<and> c \<le> 0x39)
      \<or> c = 0x2D \<or> c = 0x5F \<or> c = DOT \<or> c = 0x21 \<or> c = 0x7E \<or> c = 0x2A
      \<or> c = APOSTROPHE \<or> c = 0x28 \<or> c = 0x29)"

text \<open>
  \<open>Encode\<close>: every other code point is written as the escaped octets of its UTF-8
  encoding. A surrogate that is not part of a pair raises \<open>URIError\<close>.
\<close>

fun Encode :: "jsstring \<Rightarrow> error + jsstring" where
  "Encode [] = Inr []"
| "Encode (c # cs) =
     (if isUnescaped c then
        (case Encode cs of Inl e \<Rightarrow> Inl e | Inr r \<Rightarrow> Inr (c # r))
      else if isTrailingSurrogate c then Inl URIError
      else if isLeadingSurrogate c then
        (case cs of
           [] \<Rightarrow> Inl URIError
         | d # ds \<Rightarrow>
             (if isTrailingSurrogate d then
                (case Encode ds of
                   Inl e \<Rightarrow> Inl e
                 | Inr r \<Rightarrow>
                     Inr (escapeOctets (utf8_encode (UTF16SurrogatePairToCodePoint c d)) @ r))
              else Inl URIError))
      else
        (case Encode cs of
           Inl e \<Rightarrow> Inl e
         | Inr r \<Rightarrow> Inr (escapeOctets (utf8_encode (unat c)) @ r)))"

definition encodeURIComponent :: "jsstring \<Rightarrow> error + jsstring" where
  "encodeURIComponent s = Encode s"

section \<open>The playlist codec\<close>

text \<open>
  From \<open>src/components/playlist-manager.tsx\<close>. An entry of the playlist is
  \<open>{ path: string; filename: string }\<close>; the document is the pair of the component's
  states \<open>containerName\<close> and \<open>playlistItems\<close>.
\<close>

record PlaylistItem =
  path :: jsstring
  filename :: jsstring

record PlaylistDocument =
  containerName :: jsstring
  playlistItems :: "PlaylistItem list"

text \<open>
  \<open>removeFileExtension\<close>: \<open>filename.replace(/\.[^/.]+$/, "")\<close>. The expression matches
  at the first position that holds a dot followed, up to the end of the string, by one
  or more code units that are neither a slash nor a dot; the match is deleted.
\<close>

fun removeFileExtension :: "jsstring \<Rightarrow> jsstring" where
  "removeFileExtension [] = []"
| "removeFileExtension (c # cs) =
     (if c = DOT \<and> cs \<noteq> [] \<and> list_all (\<lambda>x. x \<noteq> SLASH \<and> x \<noteq> DOT) cs then []
      else c # removeFileExtension cs)"

text \<open>
  \<open>line.match(/Container=<([^>]+)>(.+)/)\<close>. At a given position the expression matches
  if the text \<open>Container=<\<close> stands there, followed by one or more code units other than
  \<open>>\<close>, a \<open>>\<close>, and one or more code units other than line terminators. The first
  group is the whole run up to the first \<open>>\<close> (a shorter run is not followed by \<open>>\<close>),
  the second the longest run without a line terminator. The search takes the first
  position where the expression matches.
\<close>

definition match_here :: "jsstring \<Rightarrow> (jsstring \<times> jsstring) option" where
  "match_here s =
     (if startsWith s (js ''Container=<'') then
        (let rest = drop 11 s;
             name = takeWhile (\<lambda>c. c \<noteq> GREATER) rest
         in case dropWhile (\<lambda>c. c \<noteq> GREATER) rest of
              [] \<Rightarrow> None
            | g # after \<Rightarrow>
                (let paths = takeWhile (\<lambda>c. \<not> isLineTerminator c) after
                 in if name = [] \<or> paths = [] then None else Some (name, paths)))
      else None)"

fun match_container :: "jsstring \<Rightarrow> (jsstring \<times> jsstring) option" where
  "match_container [] = match_here []"
| "match_container (c # cs) =
     (case match_here (c # cs) of
        Some m \<Rightarrow> Some m
      | None \<Rightarrow> match_container cs)"

text \<open>
  \<open>p.split("\\").pop() || p.split("/").pop() || p\<close>: an empty string and \<open>undefined\<close>
  are falsy.
\<close>

definition truthy :: "jsstring option \<Rightarrow> bool" where
  "truthy v = (case v of None \<Rightarrow> False | Some s \<Rightarrow> s \<noteq> [])"

definition fullFilename :: "jsstring \<Rightarrow> jsstring" where
  "fullFilename p =
     (if truthy (pop (split_on BACKSLASH p)) then the (pop (split_on BACKSLASH p))
      else if truthy (pop (split_on SLASH p)) then the (pop (split_on SLASH p))
      else p)"

text \<open>The body of \<open>paths.forEach\<close>: the entries that one path adds to \<open>items\<close>.\<close>

definition path_items :: "jsstring \<Rightarrow> PlaylistItem list" where
  "path_items p =
     (if trim p \<noteq> [] then
        [\<lparr>path = trim p, filename = removeFileExtension (fullFilename p)\<rparr>]
      else [])"

text \<open>
  The loop of \<open>parsePlaylistContent\<close> over the lines, with its two local variables.
  An exception of \<open>decodeURIComponent\<close> leaves the function.
\<close>

fun parse_lines ::
  "jsstring list \<Rightarrow> jsstring \<Rightarrow> PlaylistItem list \<Rightarrow> error + PlaylistDocument" where
  "parse_lines [] name items = Inr \<lparr>containerName = name, playlistItems = items\<rparr>"
| "parse_lines (line # lines) name items =
     (if startsWith line (js ''#EXTM3U'') then parse_lines lines name items
      else if startsWith line (js ''Container='') then
        (case match_container line of
           None \<Rightarrow> parse_lines lines name items
         | Some (m1, m2) \<Rightarrow>
             (case decodeURIComponent (replace_plus m1) of
                Inl e \<Rightarrow> Inl e
              | Inr name' \<Rightarrow>
                  parse_lines lines name'
                    (items @ concat (map path_items (split_on PIPE m2)))))
      else parse_lines lines name items)"

text \<open>
  \<open>parsePlaylistContent\<close> computes the document and stores it with \<open>setContainerName\<close>
  and \<open>setPlaylistItems\<close>; the model returns the document, or the exception.
\<close>

definition parsePlaylistContent :: "jsstring \<Rightarrow> error + PlaylistDocument" where
  "parsePlaylistContent content =
     parse_lines (filter (\<lambda>l. trim l \<noteq> []) (split_on LF content)) [] []"

text \<open>
  The first groups that the loop of \<open>parsePlaylistContent\<close> hands to
  \<open>decodeURIComponent\<close>: \<open>container_line\<close> is the test that the loop makes on a line,
  \<open>container_names\<close> the names of the lines of a text that pass it, with \<open>+\<close> already
  replaced.
\<close>

definition container_line :: "jsstring \<Rightarrow> (jsstring \<times> jsstring) option" where
  "container_line l =
     (if startsWith l (js ''#EXTM3U'') then None
      else if startsWith l (js ''Container='') then match_container l
      else None)"

definition container_names :: "jsstring \<Rightarrow> jsstring list" where
  "container_names raw =
     map (\<lambda>(m1, m2). replace_plus m1)
       (List.map_filter container_line (filter (\<lambda>l. trim l \<noteq> []) (split_on LF raw)))"

text \<open>\<open>generatePlaylistContent\<close>, on the document it reads.\<close>

definition generatePlaylistContent :: "PlaylistDocument \<Rightarrow> error + jsstring" where
  "generatePlaylistContent d =
     (if length (playlistItems d) = 0 then Inr (js ''#EXTM3U'' @ [LF])
      else
        (let paths = join PIPE (map path (playlistItems d))
         in case encodeURIComponent
                   (if containerName d \<noteq> [] then containerName d else js ''Not predefined'') of
              Inl e \<Rightarrow> Inl e
            | Inr encoded \<Rightarrow>
                Inr (js ''#EXTM3U'' @ [LF] @ js ''Container=<'' @ replace_pct20 encoded
                     @ [GREATER] @ paths @ [LF])))"

section \<open>The edit session\<close>

text \<open>
  The state of the component \<open>PlaylistManager\<close>, as far as the playlist pane uses it,
  and its handlers. A handler is a function from the state it runs in to the state
  after it; what it does besides (a toast, the callback \<open>onAuthError\<close>) is a list
  of effects. Writes to the console are left out. \<open>selectedDirectory\<close> is the entry
  of \<open>audioDirectories\<close> with the selected name, if there is one.
\<close>

record GoogleDriveFile =
  file_id :: jsstring
  file_name :: jsstring

record AudioDirectory =
  dir_name :: jsstring
  driveId :: jsstring
  localPath :: jsstring

record session =
  selectedPlaylist :: "GoogleDriveFile option"
  selectedDirectory :: "AudioDirectory option"
  originalContent :: jsstring
  document :: PlaylistDocument
  isPlaylistLoading :: bool
  isSaving :: bool
  saveError :: "jsstring option"

datatype effect = Toast jsstring | OnAuthError

text \<open>
  \<open>OnAuthError\<close> is the call of the callback \<open>onAuthError\<close>. What the callback of the
  application does is \<open>handleAuthError\<close> below; \<open>perform\<close> runs it on the page.
\<close>

text \<open>
  The result of awaiting a call of the storage client: the value, or the rejection with
  the \<open>message\<close> of what was thrown, if it has one.
\<close>

datatype 'a awaited = Fulfilled 'a | Rejected "jsstring option"

definition buildPathForFile :: "GoogleDriveFile \<Rightarrow> AudioDirectory option \<Rightarrow> jsstring" where
  "buildPathForFile file directory =
     (case directory of
        Some d \<Rightarrow> replace_first (localPath d) (js ''{audio_filename}'') (file_name file)
      | None \<Rightarrow>
          js ''T:'' @ [BACKSLASH] @ js ''My Drive'' @ [BACKSLASH] @ js ''Audio''
          @ [BACKSLASH] @ file_name file)"

definition addFileToPlaylist :: "GoogleDriveFile \<Rightarrow> session \<Rightarrow> session \<times> effect list" where
  "addFileToPlaylist file s =
     (case selectedPlaylist s of
        None \<Rightarrow> (s, [Toast (js ''Select a playlist'')])
      | Some pl \<Rightarrow>
          (let p = buildPathForFile file (selectedDirectory s)
           in if list_ex (\<lambda>it. path it = p) (playlistItems (document s)) then (s, [])
              else
                (s\<lparr>document := (document s)\<lparr>playlistItems :=
                     playlistItems (document s)
                     @ [\<lparr>path = p, filename = removeFileExtension (file_name file)\<rparr>]\<rparr>\<rparr>,
                 [])))"

definition removeFileFromPlaylist :: "GoogleDriveFile \<Rightarrow> session \<Rightarrow> session" where
  "removeFileFromPlaylist file s =
     (let p = buildPathForFile file (selectedDirectory s)
      in s\<lparr>document := (document s)\<lparr>playlistItems :=
           filter (\<lambda>it. path it \<noteq> p) (playlistItems (document s))\<rparr>\<rparr>)"


subsection \<open>Reordering\<close>

text \<open>
  \<open>Array.prototype.splice\<close>: a negative start counts from the end, and the start is
  clamped to the array. \<open>xs.splice(start, 1)\<close> deletes at most one element,
  \<open>xs.splice(start, 0, x)\<close> inserts one.
\<close>

definition actualStart :: "int \<Rightarrow> nat \<Rightarrow> nat" where
  "actualStart start len =
     (if start < 0 then nat (max (int len + start) 0) else min (nat start) len)"

definition splice_delete1 :: "int \<Rightarrow> 'a list \<Rightarrow> 'a list" where
  "splice_delete1 start xs =
     (let a = actualStart start (length xs);
          actualDeleteCount = min 1 (length xs - a)
      in take a xs @ drop (a + actualDeleteCount) xs)"

definition splice_insert :: "int \<Rightarrow> 'a \<Rightarrow> 'a list \<Rightarrow> 'a list" where
  "splice_insert start x xs =
     (let a = actualStart start (length xs) in take a xs @ x # drop a xs)"

text \<open>
  The update of \<open>handleDrop\<close>. \<open>dragIndex\<close> is the result of \<open>parseInt\<close>, an integer or
  \<open>NaN\<close> (here \<open>None\<close>); \<open>dropIndex\<close> is the index of a drop zone. The handler returns
  at once when the two are equal. When \<open>dragIndex\<close> is not an index of the array,
  \<open>newItems[dragIndex]\<close> is \<open>undefined\<close> and the handler would store this \<open>undefined\<close>
  in the list, which then is no list of entries any more: the result \<open>None\<close>.
\<close>

definition handleDrop :: "int option \<Rightarrow> int \<Rightarrow> 'a list \<Rightarrow> 'a list option" where
  "handleDrop dragIndex dropIndex prev =
     (if dragIndex = Some dropIndex then Some prev
      else
        (case dragIndex of
           None \<Rightarrow> None
         | Some d \<Rightarrow>
             (if 0 \<le> d \<and> d < int (length prev) then
                (let draggedItem = prev ! nat d
                 in Some (splice_insert dropIndex draggedItem (splice_delete1 d prev)))
              else None)))"


subsection \<open>Load, save and reset\<close>

definition isAuthError :: "jsstring \<Rightarrow> bool" where
  "isAuthError errorMessage =
     (includes_str errorMessage (js ''Authentication expired'')
      \<or> includes_str errorMessage (js ''Not authenticated''))"

text \<open>
  The effect that loads the selected playlist. \<open>hasOnAuthError\<close> tells whether the
  component was given the optional callback, \<open>uriMessage\<close> is the message of the
  engine's \<open>URIError\<close>, \<open>getFileContent\<close> the storage client. \<open>load_failed\<close> is the
  \<open>catch\<close> block followed by \<open>finally\<close>: the exception is not passed on.
\<close>

definition load_failed :: "bool \<Rightarrow> jsstring option \<Rightarrow> session \<Rightarrow> session \<times> effect list" where
  "load_failed hasOnAuthError message s =
     (let errorMessage =
            (case message of Some m \<Rightarrow> m | None \<Rightarrow> js ''Failed to load playlist content'')
      in (s\<lparr>isPlaylistLoading := False\<rparr>,
          if isAuthError errorMessage \<and> hasOnAuthError then [OnAuthError] else []))"

definition load ::
  "bool \<Rightarrow> jsstring \<Rightarrow> (jsstring \<Rightarrow> jsstring awaited) \<Rightarrow> session \<Rightarrow> session \<times> effect list" where
  "load hasOnAuthError uriMessage getFileContent s =
     (case selectedPlaylist s of
        None \<Rightarrow>
          (s\<lparr>originalContent := js ''#EXTM3U'' @ [LF],
             document := \<lparr>containerName = [], playlistItems = []\<rparr>\<rparr>, [])
      | Some pl \<Rightarrow>
          (let s1 = s\<lparr>isPlaylistLoading := True\<rparr>
           in case getFileContent (file_id pl) of
                Rejected message \<Rightarrow> load_failed hasOnAuthError message s1
              | Fulfilled content \<Rightarrow>
                  (let s2 = s1\<lparr>originalContent := content\<rparr>
                   in case parsePlaylistContent content of
                        Inl e \<Rightarrow> load_failed hasOnAuthError (Some uriMessage) s2
                      | Inr d \<Rightarrow> (s2\<lparr>document := d, isPlaylistLoading := False\<rparr>, []))))"

text \<open>
  \<open>savePlaylist\<close>; \<open>save_failed\<close> is its \<open>catch\<close> block followed by \<open>finally\<close>,
  \<open>saveErrorMessage\<close> the expression \<open>e?.message || "Failed to save playlist"\<close>.
\<close>

definition saveErrorMessage :: "jsstring option \<Rightarrow> jsstring" where
  "saveErrorMessage message =
     (case message of
        Some m \<Rightarrow> if m \<noteq> [] then m else js ''Failed to save playlist''
      | None \<Rightarrow> js ''Failed to save playlist'')"

definition save_failed :: "bool \<Rightarrow> jsstring option \<Rightarrow> session \<Rightarrow> session \<times> effect list" where
  "save_failed hasOnAuthError message s =
     (let errorMessage = saveErrorMessage message
      in if isAuthError errorMessage then
           (s\<lparr>isSaving := False\<rparr>, if hasOnAuthError then [OnAuthError] else [])
         else (s\<lparr>saveError := Some errorMessage, isSaving := False\<rparr>, []))"

definition savePlaylist ::
  "bool \<Rightarrow> jsstring \<Rightarrow> (jsstring \<Rightarrow> jsstring \<Rightarrow> unit awaited) \<Rightarrow> session
     \<Rightarrow> session \<times> effect list" where
  "savePlaylist hasOnAuthError uriMessage updateFile s =
     (case selectedPlaylist s of
        None \<Rightarrow> (s, [])
      | Some pl \<Rightarrow>
          (let s1 = s\<lparr>isSaving := True, saveError := None\<rparr>
           in case generatePlaylistContent (document s1) of
                Inl e \<Rightarrow> save_failed hasOnAuthError (Some uriMessage) s1
              | Inr content \<Rightarrow>
                  (case updateFile (file_id pl) content of
                     Rejected message \<Rightarrow> save_failed hasOnAuthError message s1
                   | Fulfilled u \<Rightarrow>
                       (s1\<lparr>originalContent := content, isSaving := False\<rparr>,
                        [Toast (js ''Playlist saved'')]))))"

text \<open>
  The page component \<open>HomePage\<close> mounts \<open>PlaylistManager\<close> only while its state
  \<open>accessToken\<close> holds a token, and passes it \<open>handleAuthError\<close> as \<open>onAuthError\<close>; no
  other place of the application mounts the component. \<open>playlistManager\<close> is the state
  of the mounted component, \<open>None\<close> when the sign-in screen is shown in its place: the
  state of the component, the document with it, is then gone. \<open>handleAuthError\<close> sets
  the token to null (and clears the tokens of the storage client, which are not part of
  the model).
\<close>

record page =
  accessToken :: "jsstring option"
  playlistManager :: "session option"

definition handleAuthError :: "page \<Rightarrow> page" where
  "handleAuthError p = p\<lparr>accessToken := None, playlistManager := None\<rparr>"

text \<open>
  What an effect of a handler does to the page: a toast leaves it as it is, the call
  of \<open>onAuthError\<close> runs \<open>handleAuthError\<close>.
\<close>

fun perform :: "effect \<Rightarrow> page \<Rightarrow> page" where
  "perform (Toast title) p = p"
| "perform OnAuthError p = handleAuthError p"

text \<open>
  \<open>savePlaylist\<close> as it runs in the page: the component updates its state, then the
  callback, if it was called, takes the component away.
\<close>

definition page_savePlaylist ::
  "jsstring \<Rightarrow> (jsstring \<Rightarrow> jsstring \<Rightarrow> unit awaited) \<Rightarrow> page \<Rightarrow> page" where
  "page_savePlaylist uriMessage updateFile p =
     (case playlistManager p of
        None \<Rightarrow> p
      | Some s \<Rightarrow>
          (case savePlaylist True uriMessage updateFile s of
             (s', effects) \<Rightarrow> fold perform effects (p\<lparr>playlistManager := Some s'\<rparr>)))"





section \<open>Paths of a parsed document\<close>

text \<open>
  What every path of a parsed document is: not empty, without white space at either end,
  without \<open>|\<close> and without line terminators.
\<close>

definition storable_path :: "jsstring \<Rightarrow> bool" where
  "storable_path p =
     (p \<noteq> [] \<and> trim p = p \<and> PIPE \<notin> set p \<and> (\<forall>c \<in> set p. \<not> isLineTerminator c))"

section \<open>Example data\<close>

text \<open>
  Concrete sessions, files and storage clients, on which the theorems below are run.
\<close>

definition example_session :: session where
  "example_session =
     \<lparr>selectedPlaylist = Some \<lparr>file_id = js ''1'', file_name = js ''list.m3u8''\<rparr>,
      selectedDirectory =
        Some \<lparr>dir_name = js ''IDs'', driveId = js ''2'',
              localPath = js ''T:'' @ [BACKSLASH] @ js ''{audio_filename}''\<rparr>,
      originalContent = js ''#EXTM3U'' @ [LF],
      document =
        \<lparr>containerName = js ''X'',
         playlistItems =
           [\<lparr>path = js ''T:'' @ [BACKSLASH] @ js ''a.mp3'', filename = js ''a''\<rparr>,
            \<lparr>path = js ''T:'' @ [BACKSLASH] @ js ''b.mp3'', filename = js ''b''\<rparr>,
            \<lparr>path = js ''T:'' @ [BACKSLASH] @ js ''a.mp3'', filename = js ''a''\<rparr>]\<rparr>,
      isPlaylistLoading = False, isSaving = False, saveError = None\<rparr>"


definition unix_session :: session where
  "unix_session =
     \<lparr>selectedPlaylist = Some \<lparr>file_id = js ''1'', file_name = js ''list.m3u8''\<rparr>,
      selectedDirectory =
        Some \<lparr>dir_name = js ''IDs'', driveId = js ''2'',
              localPath = js ''/music/{audio_filename}''\<rparr>,
      originalContent = js ''#EXTM3U'' @ [LF],
      document = \<lparr>containerName = js ''X'', playlistItems = []\<rparr>,
      isPlaylistLoading = False, isSaving = False, saveError = None\<rparr>"

definition rejecting_update :: "jsstring \<Rightarrow> jsstring \<Rightarrow> unit awaited" where
  "rejecting_update fileId content =
     Rejected (Some (js ''Authentication expired. Please sign in again.''))"

definition failing_update :: "jsstring \<Rightarrow> jsstring \<Rightarrow> unit awaited" where
  "failing_update fileId content = Rejected (Some (js ''Failed to update file: 500''))"

definition example_saved :: jsstring where
  "example_saved =
     js ''#EXTM3U'' @ [LF] @ js ''Container=<X>T:'' @ [BACKSLASH] @ js ''a.mp3|T:''
     @ [BACKSLASH] @ js ''b.mp3|T:'' @ [BACKSLASH] @ js ''a.mp3'' @ [LF]"




definition file_a :: GoogleDriveFile where
  "file_a = \<lparr>file_id = js ''3'', file_name = js ''a.mp3''\<rparr>"

definition file_c :: GoogleDriveFile where
  "file_c = \<lparr>file_id = js ''4'', file_name = js ''c.wav''\<rparr>"

definition example_page :: page where
  "example_page = \<lparr>accessToken = Some (js ''token''), playlistManager = Some example_session\<rparr>"




text \<open>Playlist texts and documents for the codec.\<close>

definition discount_content :: jsstring where
  "discount_content = js ''#EXTM3U'' @ [LF] @ js ''Container=<50%25+off>a%zz|b'' @ [LF]"

definition unpaired_content :: jsstring where
  "unpaired_content = js ''Container=<'' @ [0xD800] @ js ''>a''"

definition morning_content :: jsstring where
  "morning_content =
     js ''#EXTM3U'' @ [LF] @ js ''Container=<Morning+Show>C:'' @ [BACKSLASH] @ js ''a.mp3|C:''
     @ [BACKSLASH] @ js ''b.wav'' @ [LF]"

definition roundtrip_content :: jsstring where
  "roundtrip_content =
     js ''#EXTM3U'' @ [LF] @ js ''Container=<Morning+Show+%2b+%3e>C:'' @ [BACKSLASH]
     @ js ''a.mp3| b.wav |'' @ [LF]"

definition roundtrip_document :: PlaylistDocument where
  "roundtrip_document =
     \<lparr>containerName = js ''Morning Show + >'',
      playlistItems =
        [\<lparr>path = js ''C:'' @ [BACKSLASH] @ js ''a.mp3'', filename = js ''a''\<rparr>,
         \<lparr>path = js ''b.wav'', filename = js '' b''\<rparr>]\<rparr>"

definition roundtrip_encoded :: jsstring where
  "roundtrip_encoded =
     js ''#EXTM3U'' @ [LF] @ js ''Container=<Morning+Show+%2B+%3E>C:'' @ [BACKSLASH]
     @ js ''a.mp3|b.wav'' @ [LF]"

section \<open>Properties of the codec and of the session\<close>

lemma js_simps: "js [] = []" "js (c # cs) = of_char c # js cs"
  by (simp_all add: js_def)

subsection \<open>Percent-encoding and its inverse\<close>

lemma hexDigit_cases:
  "list_all (\<lambda>d. hexValue (hexDigit d) = Some d \<and> hexDigit d \<noteq> PERCENT \<and> hexDigit d \<noteq> PLUS)
     [0..<16]"
  by code_simp

lemma hexDigit_facts:
  assumes "d < 16"
  shows "hexValue (hexDigit d) = Some d" "hexDigit d \<noteq> PERCENT" "hexDigit d \<noteq> PLUS"
proof -
  have "\<forall>d \<in> {0..<16}. hexValue (hexDigit d) = Some d \<and> hexDigit d \<noteq> PERCENT
          \<and> hexDigit d \<noteq> PLUS"
    using hexDigit_cases unfolding list_all_iff set_upt .
  moreover have "d \<in> {0..<16}" using assms by simp
  ultimately have "hexValue (hexDigit d) = Some d \<and> hexDigit d \<noteq> PERCENT
          \<and> hexDigit d \<noteq> PLUS"
    by (rule bspec)
  then show "hexValue (hexDigit d) = Some d" "hexDigit d \<noteq> PERCENT" "hexDigit d \<noteq> PLUS"
    by simp_all
qed

lemma hexDigit_inj:
  assumes "d < 16" "d' < 16" "hexDigit d = hexDigit d'"
  shows "d = d'"
proof -
  have "Some d = hexValue (hexDigit d)"
    by (simp only: hexDigit_facts(1) [OF assms(1)])
  also have "\<dots> = hexValue (hexDigit d')"
    by (simp only: assms(3))
  also have "\<dots> = Some d'"
    by (simp only: hexDigit_facts(1) [OF assms(2)])
  finally show ?thesis by simp
qed

lemma hexDigit_two_zero: "hexDigit 2 = 0x32" "hexDigit 0 = 0x30"
  by (simp_all add: hexDigit_def)

lemma ParseHexOctet_escape:
  assumes "b < 256"
  shows "ParseHexOctet (hexDigit (b div 16) # hexDigit (b mod 16) # t) = Some (b, t)"
proof -
  have "b div 16 < 16" "b mod 16 < 16" using assms by simp_all
  then show ?thesis
    by (simp add: hexDigit_facts(1))
qed

lemma replace_pct20_plain:
  "a \<noteq> PERCENT \<Longrightarrow> replace_pct20 (a # t) = a # replace_pct20 t"
  by (cases t rule: replace_pct20.cases) simp_all

lemma replace_pct20_escape:
  assumes "b < 256" "b \<noteq> 0x20"
  shows "replace_pct20 (escapeOctet b @ t) = escapeOctet b @ replace_pct20 t"
proof -
  have lt: "b div 16 < 16" "b mod 16 < 16" using assms by simp_all
  have "\<not> (hexDigit (b div 16) = 0x32 \<and> hexDigit (b mod 16) = 0x30)"
  proof
    assume h: "hexDigit (b div 16) = 0x32 \<and> hexDigit (b mod 16) = 0x30"
    have "b div 16 = 2" "b mod 16 = 0"
      using h hexDigit_inj [OF lt(1), of 2] hexDigit_inj [OF lt(2), of 0]
      by (simp_all add: hexDigit_two_zero)
    then have "b = 0x20" by presburger
    with assms show False by simp
  qed
  then show ?thesis
    using hexDigit_facts(2) [OF lt(1)] hexDigit_facts(2) [OF lt(2)]
    by (simp add: escapeOctet_def replace_pct20_plain)
qed

lemma replace_pct20_space: "replace_pct20 (escapeOctet 0x20 @ t) = PLUS # replace_pct20 t"
  by (simp add: escapeOctet_def hexDigit_def)

lemma replace_pct20_escapes:
  "\<forall>b \<in> set bs. b < 256 \<and> b \<noteq> 0x20 \<Longrightarrow>
     replace_pct20 (escapeOctets bs @ t) = escapeOctets bs @ replace_pct20 t"
  by (induction bs) (simp_all add: escapeOctets_def replace_pct20_escape)

lemma replace_plus_escape:
  "b < 256 \<Longrightarrow> replace_plus (escapeOctet b @ t) = escapeOctet b @ replace_plus t"
  by (simp add: replace_plus_def escapeOctet_def hexDigit_facts(3))

lemma replace_plus_escapes:
  "\<forall>b \<in> set bs. b < 256 \<Longrightarrow>
     replace_plus (escapeOctets bs @ t) = escapeOctets bs @ replace_plus t"
  by (induction bs) (simp_all add: escapeOctets_def replace_plus_escape)

lemma continuationOctets_escapes:
  "\<forall>b \<in> set bs. b < 256 \<Longrightarrow>
     continuationOctets (length bs) (escapeOctets bs @ t) = Some (bs, t)"
  by (induction bs)
     (simp_all add: escapeOctets_def escapeOctet_def ParseHexOctet_escape
        del: ParseHexOctet.simps)

lemma utf8_two:
  assumes "0x80 \<le> cp" "cp < 0x800"
  shows "utf8_encode cp = [0xC0 + cp div 0x40, 0x80 + cp mod 0x40]"
    and "leadingOnes (0xC0 + cp div 0x40) = 2"
    and "utf8_decode [0xC0 + cp div 0x40, 0x80 + cp mod 0x40] = Some cp"
    and "0xC0 + cp div 0x40 < 256"
proof -
  have a: "cp div 0x40 < 32" using assms by simp
  have c: "cp mod 0x40 < 64" by simp
  show "utf8_encode cp = [0xC0 + cp div 0x40, 0x80 + cp mod 0x40]"
    using assms by (simp add: utf8_encode_def)
  show "leadingOnes (0xC0 + cp div 0x40) = 2"
    using a by (simp add: leadingOnes_def)
  show "utf8_decode [0xC0 + cp div 0x40, 0x80 + cp mod 0x40] = Some cp"
    using a c assms by (simp add: isContinuation_def)
  show "0xC0 + cp div 0x40 < 256" using a by simp
qed

lemma split_digit:
  fixes x k :: nat
  shows "x div 0x40 * (0x40 * k) + x mod 0x40 * k = x * k"
proof -
  have "x * k = (x div 0x40 * 0x40 + x mod 0x40) * k"
    by (simp only: div_mult_mod_eq)
  also have "\<dots> = x div 0x40 * (0x40 * k) + x mod 0x40 * k"
    by (simp only: add_mult_distrib mult.assoc)
  finally show ?thesis by simp
qed

lemma digits_three:
  fixes cp :: nat
  shows "cp div 0x1000 * 0x1000 + (cp div 0x40) mod 0x40 * 0x40 + cp mod 0x40 = cp"
proof -
  have "cp div 0x1000 = cp div 0x40 div 0x40"
    by (simp add: div_mult2_eq [symmetric])
  moreover have "cp div 0x40 div 0x40 * 0x1000 + (cp div 0x40) mod 0x40 * 0x40 = cp div 0x40 * 0x40"
    using split_digit [of "cp div 0x40" "0x40"] by simp
  ultimately have "cp div 0x1000 * 0x1000 + (cp div 0x40) mod 0x40 * 0x40 = cp div 0x40 * 0x40"
    by (simp only:)
  then show ?thesis
    by (simp only: div_mult_mod_eq)
qed

lemma digits_four:
  fixes cp :: nat
  shows "cp div 0x40000 * 0x40000 + (cp div 0x1000) mod 0x40 * 0x1000
           + (cp div 0x40) mod 0x40 * 0x40 + cp mod 0x40 = cp"
proof -
  have "cp div 0x40000 = cp div 0x1000 div 0x40"
    by (simp add: div_mult2_eq [symmetric])
  moreover have "cp div 0x1000 div 0x40 * 0x40000 + (cp div 0x1000) mod 0x40 * 0x1000
      = cp div 0x1000 * 0x1000"
    using split_digit [of "cp div 0x1000" "0x1000"] by simp
  ultimately have "cp div 0x40000 * 0x40000 + (cp div 0x1000) mod 0x40 * 0x1000
      = cp div 0x1000 * 0x1000"
    by (simp only:)
  then show ?thesis
    using digits_three [of cp] by (simp only:)
qed

lemma utf8_decode_three:
  assumes "a < 16" "b < 64" "c < 64" "0x800 \<le> a * 0x1000 + b * 0x40 + c"
    "\<not> (0xD800 \<le> a * 0x1000 + b * 0x40 + c \<and> a * 0x1000 + b * 0x40 + c \<le> 0xDFFF)"
  shows "utf8_decode [0xE0 + a, 0x80 + b, 0x80 + c] = Some (a * 0x1000 + b * 0x40 + c)"
  using assms by (simp add: isContinuation_def)

lemma utf8_decode_four:
  assumes "a < 8" "b < 64" "c < 64" "d < 64"
    "0x10000 \<le> a * 0x40000 + b * 0x1000 + c * 0x40 + d"
    "a * 0x40000 + b * 0x1000 + c * 0x40 + d \<le> 0x10FFFF"
  shows "utf8_decode [0xF0 + a, 0x80 + b, 0x80 + c, 0x80 + d]
           = Some (a * 0x40000 + b * 0x1000 + c * 0x40 + d)"
  using assms by (simp add: isContinuation_def)

lemma utf8_three:
  assumes "0x800 \<le> cp" "cp < 0x10000" "\<not> (0xD800 \<le> cp \<and> cp \<le> 0xDFFF)"
  shows "utf8_encode cp = [0xE0 + cp div 0x1000, 0x80 + (cp div 0x40) mod 0x40, 0x80 + cp mod 0x40]"
    and "leadingOnes (0xE0 + cp div 0x1000) = 3"
    and "utf8_decode [0xE0 + cp div 0x1000, 0x80 + (cp div 0x40) mod 0x40, 0x80 + cp mod 0x40]
           = Some cp"
    and "0xE0 + cp div 0x1000 < 256"
proof -
  have a: "cp div 0x1000 < 16" using assms by simp
  show "utf8_encode cp = [0xE0 + cp div 0x1000, 0x80 + (cp div 0x40) mod 0x40, 0x80 + cp mod 0x40]"
    using assms by (simp add: utf8_encode_def)
  show "leadingOnes (0xE0 + cp div 0x1000) = 3"
    using a by (simp add: leadingOnes_def)
  show "utf8_decode [0xE0 + cp div 0x1000, 0x80 + (cp div 0x40) mod 0x40, 0x80 + cp mod 0x40]
           = Some cp"
    using utf8_decode_three [of "cp div 0x1000" "(cp div 0x40) mod 0x40" "cp mod 0x40"] a assms
    unfolding digits_three by simp
  show "0xE0 + cp div 0x1000 < 256" using a by simp
qed

lemma utf8_four:
  assumes "0x10000 \<le> cp" "cp < 0x110000"
  shows "utf8_encode cp = [0xF0 + cp div 0x40000, 0x80 + (cp div 0x1000) mod 0x40,
           0x80 + (cp div 0x40) mod 0x40, 0x80 + cp mod 0x40]"
    and "leadingOnes (0xF0 + cp div 0x40000) = 4"
    and "utf8_decode [0xF0 + cp div 0x40000, 0x80 + (cp div 0x1000) mod 0x40,
           0x80 + (cp div 0x40) mod 0x40, 0x80 + cp mod 0x40] = Some cp"
    and "0xF0 + cp div 0x40000 < 256"
proof -
  have a: "cp div 0x40000 < 8" using assms by simp
  show "utf8_encode cp = [0xF0 + cp div 0x40000, 0x80 + (cp div 0x1000) mod 0x40,
           0x80 + (cp div 0x40) mod 0x40, 0x80 + cp mod 0x40]"
    using assms by (simp add: utf8_encode_def)
  show "leadingOnes (0xF0 + cp div 0x40000) = 4"
    using a by (simp add: leadingOnes_def)
  show "utf8_decode [0xF0 + cp div 0x40000, 0x80 + (cp div 0x1000) mod 0x40,
           0x80 + (cp div 0x40) mod 0x40, 0x80 + cp mod 0x40] = Some cp"
    using utf8_decode_four [of "cp div 0x40000" "(cp div 0x1000) mod 0x40"
        "(cp div 0x40) mod 0x40" "cp mod 0x40"] a assms
    unfolding digits_four by simp
  show "0xF0 + cp div 0x40000 < 256" using a by simp
qed

lemma Decode_plain:
  "c \<noteq> PERCENT \<Longrightarrow>
     Decode (c # cs) = (case Decode cs of Inl e \<Rightarrow> Inl e | Inr r \<Rightarrow> Inr (c # r))"
  by simp

lemma Decode_sequence:
  assumes "b0 < 256" "\<forall>b \<in> set bs. b < 256" "leadingOnes b0 = Suc (length bs)"
    "bs \<noteq> []" "length bs \<le> 3" "utf8_decode (b0 # bs) = Some v"
  shows "Decode (escapeOctets (b0 # bs) @ t)
           = (case Decode t of Inl e \<Rightarrow> Inl e | Inr r \<Rightarrow> Inr (UTF16EncodeCodePoint v @ r))"
proof -
  have shape: "escapeOctets (b0 # bs) @ t
      = PERCENT # hexDigit (b0 div 16) # hexDigit (b0 mod 16) # (escapeOctets bs @ t)"
    by (simp add: escapeOctets_def escapeOctet_def)
  show ?thesis
    unfolding shape
    using assms(4,5)
    by (simp add: ParseHexOctet_escape [OF assms(1)] assms(3)
          continuationOctets_escapes [OF assms(2)] assms(6)
        del: ParseHexOctet.simps utf8_decode.simps)
qed

lemma Decode_escaped_octets:
  assumes enc: "utf8_encode cp = b0 # bs"
    and b0: "b0 < 256" "leadingOnes b0 = Suc (length bs)"
    and bs: "bs \<noteq> []" "length bs \<le> 3" "\<forall>b \<in> set bs. 0x80 \<le> b \<and> b < 256"
    and dec: "utf8_decode (b0 # bs) = Some cp"
  shows "Decode (replace_plus (replace_pct20 (escapeOctets (utf8_encode cp) @ r)))
           = (case Decode (replace_plus (replace_pct20 r)) of
                Inl e \<Rightarrow> Inl e
              | Inr x \<Rightarrow> Inr (UTF16EncodeCodePoint cp @ x))"
proof -
  have hi: "0x80 \<le> b0" using b0(2) by (auto simp: leadingOnes_def split: if_splits)
  have all: "\<forall>b \<in> set (b0 # bs). b < 256 \<and> b \<noteq> 0x20" "\<forall>b \<in> set (b0 # bs). b < 256"
    "\<forall>b \<in> set bs. b < 256"
    using b0(1) hi bs(3) by auto
  show ?thesis
    unfolding enc replace_pct20_escapes [OF all(1)] replace_plus_escapes [OF all(2)]
    by (rule Decode_sequence [OF b0(1) all(3) b0(2) bs(1,2) dec])
qed

lemma mod64_bound: "(x::nat) mod 0x40 < 0x80"
proof -
  have "x mod 0x40 < 0x40" by simp
  then show ?thesis by linarith
qed

lemma Decode_escaped_code_point:
  assumes "0x80 \<le> cp" "cp < 0x110000" "\<not> (0xD800 \<le> cp \<and> cp \<le> 0xDFFF)"
  shows "Decode (replace_plus (replace_pct20 (escapeOctets (utf8_encode cp) @ r)))
           = (case Decode (replace_plus (replace_pct20 r)) of
                Inl e \<Rightarrow> Inl e
              | Inr x \<Rightarrow> Inr (UTF16EncodeCodePoint cp @ x))"
proof (cases "cp < 0x800")
  case True
  note f = utf8_two [OF assms(1) True]
  show ?thesis
    by (rule Decode_escaped_octets [where ?b0.0 = "0xC0 + cp div 0x40"
          and bs = "[0x80 + cp mod 0x40]"])
       (simp_all add: f mod64_bound del: utf8_decode.simps)
next
  case False
  show ?thesis
  proof (cases "cp < 0x10000")
    case True
    from False have lo: "0x800 \<le> cp" by simp
    note f = utf8_three [OF lo True assms(3)]
    show ?thesis
      by (rule Decode_escaped_octets [where ?b0.0 = "0xE0 + cp div 0x1000"
            and bs = "[0x80 + (cp div 0x40) mod 0x40, 0x80 + cp mod 0x40]"])
         (simp_all add: f mod64_bound del: utf8_decode.simps)
  next
    case False
    then have lo: "0x10000 \<le> cp" by simp
    note f = utf8_four [OF lo assms(2)]
    show ?thesis
      by (rule Decode_escaped_octets [where ?b0.0 = "0xF0 + cp div 0x40000"
            and bs = "[0x80 + (cp div 0x1000) mod 0x40, 0x80 + (cp div 0x40) mod 0x40,
                       0x80 + cp mod 0x40]"])
         (simp_all add: f mod64_bound del: utf8_decode.simps)
  qed
qed

lemma Decode_escaped_ascii:
  assumes "b < 0x80"
  shows "Decode (replace_plus (replace_pct20 (escapeOctets (utf8_encode b) @ r)))
           = (case Decode (replace_plus (replace_pct20 r)) of
                Inl e \<Rightarrow> Inl e
              | Inr x \<Rightarrow> Inr (of_nat b # x))"
proof (cases "b = 0x20")
  case True
  have "escapeOctets (utf8_encode 0x20) @ r = escapeOctet 0x20 @ r"
    by (simp add: utf8_encode_def escapeOctets_def)
  then show ?thesis
    unfolding True of_nat_numeral by (simp add: replace_pct20_space replace_plus_def)
next
  case False
  have b: "b < 256" using assms by simp
  have shape: "escapeOctets (utf8_encode b) @ r = escapeOctet b @ r"
    using assms by (simp add: utf8_encode_def escapeOctets_def)
  have "leadingOnes b = 0" using assms by (simp add: leadingOnes_def)
  then show ?thesis
    unfolding shape replace_pct20_escape [OF b False] replace_plus_escape [OF b]
    by (simp add: escapeOctet_def ParseHexOctet_escape [OF b] del: ParseHexOctet.simps)
qed

lemma isUnescaped_plain:
  assumes "isUnescaped c"
  shows "c \<noteq> PERCENT" "c \<noteq> PLUS" "c \<noteq> GREATER" "c \<noteq> LF"
  using assms by (auto simp: isUnescaped_def)

lemma surrogate_unat:
  "isLeadingSurrogate c \<longleftrightarrow> 0xD800 \<le> unat c \<and> unat c \<le> 0xDBFF"
  "isTrailingSurrogate c \<longleftrightarrow> 0xDC00 \<le> unat c \<and> unat c \<le> 0xDFFF"
  by (simp_all add: isLeadingSurrogate_def isTrailingSurrogate_def word_le_nat_alt)

lemma unat_jschar: "unat (c :: jschar) < 0x10000"
  using unsigned_less [of c, where ?'a = nat] by simp

lemma UTF16_single: "UTF16EncodeCodePoint (unat (c :: jschar)) = [c]"
  using unat_jschar [of c] by (simp add: UTF16EncodeCodePoint_def)

lemma UTF16_pair:
  assumes "isLeadingSurrogate c" "isTrailingSurrogate d"
  shows "UTF16EncodeCodePoint (UTF16SurrogatePairToCodePoint c d) = [c, d]"
    and "0x10000 \<le> UTF16SurrogatePairToCodePoint c d"
    and "UTF16SurrogatePairToCodePoint c d < 0x110000"
proof -
  define x where "x = unat c - 0xD800"
  define y where "y = unat d - 0xDC00"
  have x: "x < 0x400" "unat c = x + 0xD800"
    using assms(1) unfolding x_def surrogate_unat by linarith+
  have y: "y < 0x400" "unat d = y + 0xDC00"
    using assms(2) unfolding y_def surrogate_unat by linarith+
  have cp: "UTF16SurrogatePairToCodePoint c d = x * 0x400 + y + 0x10000"
    by (simp add: UTF16SurrogatePairToCodePoint_def x_def y_def)
  have "(x * 0x400 + y) div 0x400 = x" "(x * 0x400 + y) mod 0x400 = y"
    using y(1) by simp_all
  then have "UTF16EncodeCodePoint (x * 0x400 + y + 0x10000)
      = [of_nat (x + 0xD800), of_nat (y + 0xDC00)]"
    by (simp add: UTF16EncodeCodePoint_def)
  also have "\<dots> = [c, d]"
    unfolding x(2) [symmetric] y(2) [symmetric] by simp
  finally show "UTF16EncodeCodePoint (UTF16SurrogatePairToCodePoint c d) = [c, d]"
    unfolding cp .
  show "0x10000 \<le> UTF16SurrogatePairToCodePoint c d"
    unfolding cp by simp
  show "UTF16SurrogatePairToCodePoint c d < 0x110000"
    unfolding cp using x(1) y(1) by simp
qed

lemma uri_roundtrip:
  "Encode s = Inr e \<Longrightarrow> Decode (replace_plus (replace_pct20 e)) = Inr s"
proof (induction s arbitrary: e rule: Encode.induct)
  case 1
  then show ?case by (simp add: replace_plus_def)
next
  case (2 c cs)
  show ?case
  proof (cases "isUnescaped c")
    case True
    with "2.prems" obtain r where r: "Encode cs = Inr r" and e: "e = c # r"
      by (auto split: sum.splits)
    have "Decode (replace_plus (replace_pct20 r)) = Inr cs"
      by (rule "2.IH"(1) [OF True r])
    then show ?thesis
      unfolding e using isUnescaped_plain [OF True]
      by (simp add: replace_pct20_plain replace_plus_def)
  next
    case False
    note unesc = False
    show ?thesis
    proof (cases "isTrailingSurrogate c")
      case True
      with unesc "2.prems" show ?thesis by simp
    next
      case False
      note trail = False
      show ?thesis
      proof (cases "isLeadingSurrogate c")
        case True
        with unesc trail "2.prems" obtain d ds r where cs: "cs = d # ds"
          and d: "isTrailingSurrogate d" and r: "Encode ds = Inr r"
          and e: "e = escapeOctets (utf8_encode (UTF16SurrogatePairToCodePoint c d)) @ r"
          by (auto split: list.splits if_splits sum.splits)
        have ih: "Decode (replace_plus (replace_pct20 r)) = Inr ds"
          by (rule "2.IH"(2) [OF unesc trail True cs d r])
        note p = UTF16_pair [OF True d]
        have "Decode (replace_plus (replace_pct20 e)) = Inr ([c, d] @ ds)"
          unfolding e
          using Decode_escaped_code_point [of "UTF16SurrogatePairToCodePoint c d" r] p ih
          by simp
        then show ?thesis unfolding cs by simp
      next
        case False
        with unesc trail "2.prems" obtain r where r: "Encode cs = Inr r"
          and e: "e = escapeOctets (utf8_encode (unat c)) @ r"
          by (auto split: sum.splits)
        have ih: "Decode (replace_plus (replace_pct20 r)) = Inr cs"
          by (rule "2.IH"(3) [OF unesc trail False r])
        have ns: "\<not> (0xD800 \<le> unat c \<and> unat c \<le> 0xDFFF)"
          using trail False unfolding surrogate_unat by linarith
        show ?thesis
        proof (cases "unat c < 0x80")
          case True
          show ?thesis
            unfolding e using Decode_escaped_ascii [OF True, of r] ih by simp
        next
          case False
          then have "0x80 \<le> unat c" by simp
          moreover have "unat c < 0x110000" using unat_jschar [of c] by simp
          ultimately show ?thesis
            unfolding e using Decode_escaped_code_point [of "unat c" r] ns ih
            by (simp add: UTF16_single)
        qed
      qed
    qed
  qed
qed

subsection \<open>Splitting, joining and trimming\<close>

lemma split_on_not_Nil: "split_on sep s \<noteq> []"
  by (induction s) (auto split: list.splits)

lemma split_on_no_sep: "sep \<notin> set a \<Longrightarrow> split_on sep a = [a]"
  by (induction a) auto

lemma split_on_append:
  "sep \<notin> set a \<Longrightarrow> split_on sep (a @ sep # b) = a # split_on sep b"
  by (induction a) auto

lemma split_on_parts:
  "l \<in> set (split_on sep s) \<Longrightarrow> set l \<subseteq> set s \<and> sep \<notin> set l"
proof (induction s arbitrary: l)
  case Nil
  then show ?case by simp
next
  case (Cons c cs)
  show ?case
  proof (cases "c = sep")
    case True
    with Cons show ?thesis by auto
  next
    case False
    obtain w ws where w: "split_on sep cs = w # ws"
      using split_on_not_Nil [of sep cs] by (cases "split_on sep cs") auto
    with False Cons.prems have "l = c # w \<or> l \<in> set ws" by simp
    then show ?thesis
    proof
      assume "l = c # w"
      with Cons.IH [of w] w False show ?thesis by auto
    next
      assume "l \<in> set ws"
      with Cons.IH [of l] w show ?thesis by auto
    qed
  qed
qed

lemma split_on_join:
  "ps \<noteq> [] \<Longrightarrow> \<forall>p \<in> set ps. sep \<notin> set p \<Longrightarrow> split_on sep (join sep ps) = ps"
proof (induction ps rule: join.induct)
  case (1 sep)
  then show ?case by simp
next
  case (2 sep x)
  then show ?case by (simp add: split_on_no_sep)
next
  case (3 sep x y ys)
  then show ?case by (simp add: split_on_append)
qed

lemma trim_subset: "set (trim s) \<subseteq> set s"
proof -
  have "set (trim s) \<subseteq> set (dropWhile isTrimmed s)"
    unfolding trim_def using set_dropWhileD [of _ isTrimmed "rev (dropWhile isTrimmed s)"]
    by auto
  also have "\<dots> \<subseteq> set s"
    using set_dropWhileD [of _ isTrimmed s] by auto
  finally show ?thesis .
qed

lemma dropWhile_rev_fixed:
  assumes "dropWhile P t = t"
  shows "dropWhile P (rev (dropWhile P (rev t))) = rev (dropWhile P (rev t))"
proof (cases t)
  case Nil
  then show ?thesis by simp
next
  case (Cons x t')
  with assms have x: "\<not> P x" using hd_dropWhile [of P t] by auto
  have "dropWhile P (rev t' @ [x]) = dropWhile P (rev t') @ [x]"
    using x by (simp add: dropWhile_append)
  then have "rev (dropWhile P (rev t)) = x # rev (dropWhile P (rev t'))"
    using Cons by simp
  then show ?thesis using x by simp
qed

lemma trim_idem: "trim (trim s) = trim s"
proof -
  define t where "t = dropWhile isTrimmed s"
  have t: "dropWhile isTrimmed t = t" by (simp add: t_def)
  have "trim (trim s) = rev (dropWhile isTrimmed (rev (dropWhile isTrimmed
      (rev (dropWhile isTrimmed (rev t))))))"
    by (simp add: trim_def t_def)
  also have "\<dots> = rev (dropWhile isTrimmed (dropWhile isTrimmed (rev t)))"
    by (simp add: dropWhile_rev_fixed [OF t])
  also have "\<dots> = trim s"
    by (simp add: trim_def t_def)
  finally show ?thesis .
qed

lemma trim_not_Nil: "\<not> isTrimmed c \<Longrightarrow> trim (c # cs) \<noteq> []"
  by (simp add: trim_def dropWhile_append)

lemma trim_Nil: "trim [] = []"
  by (simp add: trim_def)

subsection \<open>The container line\<close>

lemma match_here_line:
  assumes "enc \<noteq> []" "GREATER \<notin> set enc" "paths \<noteq> []"
    "\<forall>c \<in> set paths. \<not> isLineTerminator c"
  shows "match_here (js ''Container=<'' @ enc @ GREATER # paths) = Some (enc, paths)"
proof -
  have tw: "takeWhile (\<lambda>c. c \<noteq> GREATER) (enc @ GREATER # paths) = enc"
    using assms(2) by (auto simp: takeWhile_tail)
  have dw: "dropWhile (\<lambda>c. c \<noteq> GREATER) (enc @ GREATER # paths) = GREATER # paths"
    using assms(2) by (auto simp: dropWhile_append3)
  have pw: "takeWhile (\<lambda>c. \<not> isLineTerminator c) paths = paths"
    using assms(4) by simp
  have d: "drop 11 (js ''Container=<'' @ enc @ GREATER # paths) = enc @ GREATER # paths"
    by (simp add: js_def)
  have st: "startsWith (js ''Container=<'' @ enc @ GREATER # paths) (js ''Container=<'')"
    by (simp add: startsWith_def)
  show ?thesis
    unfolding match_here_def using st assms(1,3)
    by (simp only: d tw dw pw Let_def if_True list.case) simp
qed

lemma match_container_here: "match_here s = Some m \<Longrightarrow> match_container s = Some m"
  by (cases s) simp_all

lemma match_here_groups:
  assumes "match_here s = Some (m1, m2)"
  shows "m1 \<noteq> []" "m2 \<noteq> []" "set m1 \<subseteq> set s" "\<forall>c \<in> set m2. \<not> isLineTerminator c"
proof -
  from assms obtain g after where
    after: "dropWhile (\<lambda>c. c \<noteq> GREATER) (drop 11 s) = g # after"
    and m1: "m1 = takeWhile (\<lambda>c. c \<noteq> GREATER) (drop 11 s)"
    and m2: "m2 = takeWhile (\<lambda>c. \<not> isLineTerminator c) after"
    and ne: "m1 \<noteq> []" "m2 \<noteq> []"
    by (auto simp: match_here_def Let_def split: if_splits list.splits)
  show "m1 \<noteq> []" "m2 \<noteq> []" by (rule ne)+
  have "set m1 \<subseteq> set (drop 11 s)"
    unfolding m1 using set_takeWhileD by fastforce
  also have "\<dots> \<subseteq> set s" by (rule set_drop_subset)
  finally show "set m1 \<subseteq> set s" .
  show "\<forall>c \<in> set m2. \<not> isLineTerminator c"
    unfolding m2 using set_takeWhileD by fastforce
qed

lemma match_container_groups:
  assumes "match_container s = Some (m1, m2)"
  shows "m1 \<noteq> []" "m2 \<noteq> []" "set m1 \<subseteq> set s" "\<forall>c \<in> set m2. \<not> isLineTerminator c"
proof -
  have "m1 \<noteq> [] \<and> m2 \<noteq> [] \<and> set m1 \<subseteq> set s \<and> (\<forall>c \<in> set m2. \<not> isLineTerminator c)"
    using assms
  proof (induction s)
    case Nil
    then show ?case using match_here_groups [of "[]" m1 m2] by simp
  next
    case (Cons c cs)
    show ?case
    proof (cases "match_here (c # cs)")
      case None
      with Cons show ?thesis by auto
    next
      case (Some m)
      with Cons.prems have "match_here (c # cs) = Some (m1, m2)" by simp
      then show ?thesis using match_here_groups [of "c # cs" m1 m2] by simp
    qed
  qed
  then show "m1 \<noteq> []" "m2 \<noteq> []" "set m1 \<subseteq> set s" "\<forall>c \<in> set m2. \<not> isLineTerminator c"
    by simp_all
qed

lemma parse_manifest:
  assumes "enc \<noteq> []" "GREATER \<notin> set enc" "LF \<notin> set enc" "paths \<noteq> []"
    "\<forall>c \<in> set paths. \<not> isLineTerminator c"
  shows "parsePlaylistContent
           (js ''#EXTM3U'' @ [LF] @ js ''Container=<'' @ enc @ [GREATER] @ paths @ [LF])
         = (case decodeURIComponent (replace_plus enc) of
              Inl e \<Rightarrow> Inl e
            | Inr n \<Rightarrow>
                Inr \<lparr>containerName = n,
                     playlistItems = concat (map path_items (split_on PIPE paths))\<rparr>)"
proof -
  define line where "line = js ''Container=<'' @ enc @ GREATER # paths"
  have nl: "LF \<notin> set paths"
    using assms(5) by (auto simp: isLineTerminator_def)
  have lf_line: "LF \<notin> set line"
    using assms(3) nl by (auto simp: line_def js_simps)
  have lf_head: "LF \<notin> set (js ''#EXTM3U'')"
    by (simp add: js_simps)
  have "js ''#EXTM3U'' @ [LF] @ js ''Container=<'' @ enc @ [GREATER] @ paths @ [LF]
      = js ''#EXTM3U'' @ LF # (line @ LF # [])"
    by (simp add: line_def)
  then have lines: "split_on LF
      (js ''#EXTM3U'' @ [LF] @ js ''Container=<'' @ enc @ [GREATER] @ paths @ [LF])
      = [js ''#EXTM3U'', line, []]"
    by (simp only: split_on_append [OF lf_head] split_on_append [OF lf_line] split_on.simps)
  have t1: "trim (js ''#EXTM3U'') \<noteq> []"
    unfolding js_simps
    by (rule trim_not_Nil) (simp add: isTrimmed_def isWhiteSpace_def isLineTerminator_def)
  have t2: "trim line \<noteq> []"
    unfolding line_def js_simps append_Cons
    by (rule trim_not_Nil) (simp add: isTrimmed_def isWhiteSpace_def isLineTerminator_def)
  have kept: "filter (\<lambda>l. trim l \<noteq> []) [js ''#EXTM3U'', line, []] = [js ''#EXTM3U'', line]"
    using t1 t2 by (simp add: trim_Nil)
  have h1: "startsWith (js ''#EXTM3U'') (js ''#EXTM3U'')"
    by (simp add: startsWith_def)
  have h2: "\<not> startsWith line (js ''#EXTM3U'')"
    by (simp add: startsWith_def line_def js_simps)
  have h3: "startsWith line (js ''Container='')"
    by (simp add: startsWith_def line_def js_simps)
  have m: "match_container line = Some (enc, paths)"
    unfolding line_def
    by (rule match_container_here [OF match_here_line [OF assms(1,2,4,5)]])
  show ?thesis
    unfolding parsePlaylistContent_def lines kept
    by (simp add: h1 h2 h3 m split: sum.splits)
qed

subsection \<open>The characters of an encoded name\<close>

lemma hexDigit_unescaped_cases: "list_all (\<lambda>d. isUnescaped (hexDigit d)) [0..<16]"
  by code_simp

lemma hexDigit_unescaped: "d < 16 \<Longrightarrow> isUnescaped (hexDigit d)"
proof -
  assume "d < 16"
  then have "d \<in> set [0..<16]" by simp
  with hexDigit_unescaped_cases show ?thesis
    unfolding list_all_iff by (rule bspec)
qed

lemma escapeOctet_chars:
  assumes "b < 256"
  shows "\<forall>c \<in> set (escapeOctet b). isUnescaped c \<or> c = PERCENT"
proof -
  have "b div 16 < 16" "b mod 16 < 16" using assms by simp_all
  then show ?thesis
    by (simp add: escapeOctet_def hexDigit_unescaped)
qed

lemma escapeOctets_Cons: "escapeOctets (b # bs) = escapeOctet b @ escapeOctets bs"
  by (simp add: escapeOctets_def)

lemma escapeOctets_chars:
  "\<forall>b \<in> set bs. b < 256 \<Longrightarrow> \<forall>c \<in> set (escapeOctets bs). isUnescaped c \<or> c = PERCENT"
proof (induction bs)
  case Nil
  then show ?case by (simp add: escapeOctets_def)
next
  case (Cons b bs)
  then show ?case
    using escapeOctet_chars [of b] unfolding escapeOctets_Cons by auto
qed

lemma utf8_encode_octets:
  assumes "cp < 0x110000"
  shows "\<forall>b \<in> set (utf8_encode cp). b < 256" "utf8_encode cp \<noteq> []"
proof -
  have "cp div 0x40 < 0x20" if "cp < 0x800" using that by simp
  moreover have "cp div 0x1000 < 0x10" if "cp < 0x10000" using that by simp
  moreover have "cp div 0x40000 < 8" using assms by simp
  ultimately show "\<forall>b \<in> set (utf8_encode cp). b < 256"
    using mod64_bound [of cp] mod64_bound [of "cp div 0x40"] mod64_bound [of "cp div 0x1000"]
    by (auto simp: utf8_encode_def)
  show "utf8_encode cp \<noteq> []" by (simp add: utf8_encode_def)
qed

lemma escapeOctets_not_Nil: "bs \<noteq> [] \<Longrightarrow> escapeOctets bs \<noteq> []"
  by (cases bs) (simp_all add: escapeOctets_def escapeOctet_def)

lemma Encode_chars:
  "Encode s = Inr e \<Longrightarrow>
     (\<forall>c \<in> set e. isUnescaped c \<or> c = PERCENT) \<and> (s \<noteq> [] \<longrightarrow> e \<noteq> [])"
proof (induction s arbitrary: e rule: Encode.induct)
  case 1
  then show ?case by simp
next
  case (2 c cs)
  show ?case
  proof (cases "isUnescaped c")
    case True
    with "2.prems" obtain r where r: "Encode cs = Inr r" and e: "e = c # r"
      by (auto split: sum.splits)
    from "2.IH"(1) [OF True r] True show ?thesis unfolding e by simp
  next
    case False
    note unesc = False
    show ?thesis
    proof (cases "isTrailingSurrogate c")
      case True
      with unesc "2.prems" show ?thesis by simp
    next
      case False
      note trail = False
      show ?thesis
      proof (cases "isLeadingSurrogate c")
        case True
        with unesc trail "2.prems" obtain d ds r where cs: "cs = d # ds"
          and d: "isTrailingSurrogate d" and r: "Encode ds = Inr r"
          and e: "e = escapeOctets (utf8_encode (UTF16SurrogatePairToCodePoint c d)) @ r"
          by (auto split: list.splits if_splits sum.splits)
        note p = UTF16_pair [OF True d]
        note o = utf8_encode_octets [OF p(3)]
        from "2.IH"(2) [OF unesc trail True cs d r] escapeOctets_chars [OF o(1)]
          escapeOctets_not_Nil [OF o(2)]
        show ?thesis unfolding e by auto
      next
        case False
        with unesc trail "2.prems" obtain r where r: "Encode cs = Inr r"
          and e: "e = escapeOctets (utf8_encode (unat c)) @ r"
          by (auto split: sum.splits)
        have "unat c < 0x110000" using unat_jschar [of c] by simp
        note o = utf8_encode_octets [OF this]
        from "2.IH"(3) [OF unesc trail False r] escapeOctets_chars [OF o(1)]
          escapeOctets_not_Nil [OF o(2)]
        show ?thesis unfolding e by auto
      qed
    qed
  qed
qed

lemma replace_pct20_chars: "set (replace_pct20 e) \<subseteq> insert PLUS (set e)"
  by (induction e rule: replace_pct20.induct) auto

lemma replace_pct20_not_Nil: "e \<noteq> [] \<Longrightarrow> replace_pct20 e \<noteq> []"
  by (cases e rule: replace_pct20.cases) auto

lemma encoded_name:
  assumes "Encode s = Inr e" "s \<noteq> []"
  shows "replace_pct20 e \<noteq> []" "GREATER \<notin> set (replace_pct20 e)" "LF \<notin> set (replace_pct20 e)"
proof -
  from Encode_chars [OF assms(1)] assms(2)
  have ch: "\<forall>c \<in> set e. isUnescaped c \<or> c = PERCENT" and ne: "e \<noteq> []" by simp_all
  show "replace_pct20 e \<noteq> []" by (rule replace_pct20_not_Nil [OF ne])
  have "c \<noteq> GREATER \<and> c \<noteq> LF" if "c \<in> set (replace_pct20 e)" for c
  proof -
    from that replace_pct20_chars [of e] have "c = PLUS \<or> c \<in> set e" by auto
    with ch have "c = PLUS \<or> c = PERCENT \<or> isUnescaped c" by auto
    then show ?thesis using isUnescaped_plain(3,4) [of c] by auto
  qed
  then show "GREATER \<notin> set (replace_pct20 e)" "LF \<notin> set (replace_pct20 e)" by auto
qed

subsection \<open>What the parser produces\<close>

lemma Decode_not_Nil:
  assumes "Decode s = Inr r" "s \<noteq> []"
  shows "r \<noteq> []"
proof -
  from assms(2) obtain c cs where s: "s = c # cs" by (cases s) auto
  have "UTF16EncodeCodePoint v \<noteq> []" for v
    by (simp add: UTF16EncodeCodePoint_def)
  with assms(1) show ?thesis
    unfolding s
    by (auto split: if_splits sum.splits option.splits prod.splits
          simp del: ParseHexOctet.simps utf8_decode.simps)
qed

lemma path_items_storable:
  assumes "q \<in> set (split_on PIPE m2)" "\<forall>c \<in> set m2. \<not> isLineTerminator c"
  shows "\<forall>it \<in> set (path_items q). storable_path (path it)"
proof (cases "trim q = []")
  case True
  then show ?thesis by (simp add: path_items_def)
next
  case False
  from split_on_parts [OF assms(1)] have q: "set q \<subseteq> set m2" "PIPE \<notin> set q" by simp_all
  have "set (trim q) \<subseteq> set q" by (rule trim_subset)
  with q assms(2) have "PIPE \<notin> set (trim q)" "\<forall>c \<in> set (trim q). \<not> isLineTerminator c"
    by auto
  with False show ?thesis
    by (simp add: path_items_def storable_path_def trim_idem)
qed

lemma path_items_of_storable:
  "storable_path p \<Longrightarrow> map path (path_items p) = [p]"
  by (simp add: path_items_def storable_path_def)

lemma parse_lines_invariant:
  assumes "parse_lines ls n items = Inr d"
    and "\<forall>it \<in> set items. storable_path (path it)"
    and "items \<noteq> [] \<longrightarrow> n \<noteq> []"
  shows "(\<forall>it \<in> set (playlistItems d). storable_path (path it))
    \<and> (playlistItems d \<noteq> [] \<longrightarrow> containerName d \<noteq> [])"
  using assms
proof (induction ls arbitrary: n items)
  case Nil
  then show ?case by auto
next
  case (Cons l ls)
  show ?case
  proof (cases "\<not> startsWith l (js ''#EXTM3U'') \<and> startsWith l (js ''Container='')
      \<and> match_container l \<noteq> None")
    case False
    with Cons.prems(1) have "parse_lines ls n items = Inr d"
      by (auto split: if_splits option.splits)
    from Cons.IH [OF this Cons.prems(2,3)] show ?thesis .
  next
    case True
    then obtain m1 m2 where m: "match_container l = Some (m1, m2)" by auto
    with True Cons.prems(1) obtain n' where n': "Decode (replace_plus m1) = Inr n'"
      and rest: "parse_lines ls n' (items @ concat (map path_items (split_on PIPE m2))) = Inr d"
      by (auto simp: decodeURIComponent_def split: sum.splits)
    note g = match_container_groups [OF m]
    have "replace_plus m1 \<noteq> []" using g(1) by (simp add: replace_plus_def)
    from Decode_not_Nil [OF n' this] have ne: "n' \<noteq> []" .
    have "\<forall>it \<in> set (items @ concat (map path_items (split_on PIPE m2))).
        storable_path (path it)"
      using Cons.prems(2) path_items_storable [OF _ g(4)] by auto
    from Cons.IH [OF rest this] ne show ?thesis by simp
  qed
qed

lemma parsed_document:
  assumes "parsePlaylistContent raw = Inr d"
  shows "\<forall>it \<in> set (playlistItems d). storable_path (path it)"
    and "playlistItems d \<noteq> [] \<Longrightarrow> containerName d \<noteq> []"
  using parse_lines_invariant [OF assms [unfolded parsePlaylistContent_def]] by simp_all

lemma join_chars:
  "c \<in> set (join sep ps) \<Longrightarrow> c = sep \<or> (\<exists>p \<in> set ps. c \<in> set p)"
  by (induction sep ps rule: join.induct) auto

lemma join_not_Nil: "ps \<noteq> [] \<Longrightarrow> hd ps \<noteq> [] \<Longrightarrow> join sep ps \<noteq> []"
  by (induction sep ps rule: join.induct) auto

lemma storable_paths_items:
  "\<forall>p \<in> set ps. storable_path p \<Longrightarrow> map path (concat (map path_items ps)) = ps"
  by (induction ps) (simp_all add: path_items_of_storable)

subsection \<open>The round trip\<close>

text \<open>
  The core of the round trip: whenever \<open>generatePlaylistContent\<close> returns a text for a
  parsed document with items, parsing that text gives the name and the paths back.
\<close>

lemma roundtrip_of_encoded_document:
  assumes "parsePlaylistContent raw = Inr d"
    and "playlistItems d \<noteq> []"
    and "generatePlaylistContent d = Inr encoded"
  shows "\<exists>d'. parsePlaylistContent encoded = Inr d'
           \<and> containerName d' = containerName d
           \<and> map path (playlistItems d') = map path (playlistItems d)"
proof -
  define ps where "ps = map path (playlistItems d)"
  note inv = parsed_document [OF assms(1)]
  have name: "containerName d \<noteq> []" by (rule inv(2) [OF assms(2)])
  have ps: "ps \<noteq> []" "\<forall>p \<in> set ps. storable_path p"
    using assms(2) inv(1) by (simp_all add: ps_def)
  have gen: "generatePlaylistContent d
      = (case Encode (containerName d) of
           Inl e \<Rightarrow> Inl e
         | Inr e \<Rightarrow> Inr (js ''#EXTM3U'' @ [LF] @ js ''Container=<'' @ replace_pct20 e
              @ [GREATER] @ join PIPE ps @ [LF]))"
    unfolding generatePlaylistContent_def encodeURIComponent_def Let_def ps_def
    using assms(2) name by (simp only: length_0_conv if_False if_True not_False_eq_True)
  obtain e where e: "Encode (containerName d) = Inr e"
    and shape: "encoded = js ''#EXTM3U'' @ [LF] @ js ''Container=<'' @ replace_pct20 e
        @ [GREATER] @ join PIPE ps @ [LF]"
  proof (cases "Encode (containerName d)")
    case (Inl a)
    with gen assms(3) show ?thesis by (simp only: sum.case sum.distinct)
  next
    case (Inr b)
    with gen assms(3) have "encoded = js ''#EXTM3U'' @ [LF] @ js ''Container=<''
        @ replace_pct20 b @ [GREATER] @ join PIPE ps @ [LF]"
      by (simp only: sum.case sum.inject)
    then show ?thesis by (rule that [OF Inr])
  qed
  note enc = encoded_name [OF e name]
  have "hd ps \<in> set ps" using ps(1) by simp
  with ps(2) have "storable_path (hd ps)" by (rule bspec)
  then have "hd ps \<noteq> []" by (simp add: storable_path_def)
  then have j1: "join PIPE ps \<noteq> []" by (rule join_not_Nil [OF ps(1)])
  have j2: "\<forall>c \<in> set (join PIPE ps). \<not> isLineTerminator c"
  proof
    fix c assume "c \<in> set (join PIPE ps)"
    from join_chars [OF this] show "\<not> isLineTerminator c"
    proof
      assume "c = PIPE"
      then show ?thesis by (simp add: isLineTerminator_def)
    next
      assume "\<exists>p \<in> set ps. c \<in> set p"
      then obtain p where p: "p \<in> set ps" "c \<in> set p" by blast
      from ps(2) p(1) have "storable_path p" by (rule bspec)
      with p(2) show ?thesis unfolding storable_path_def by blast
    qed
  qed
  have nopipe: "\<forall>p \<in> set ps. PIPE \<notin> set p"
    using ps(2) unfolding storable_path_def by blast
  have sp: "split_on PIPE (join PIPE ps) = ps"
    by (rule split_on_join [OF ps(1) nopipe])
  have dec: "decodeURIComponent (replace_plus (replace_pct20 e)) = Inr (containerName d)"
    unfolding decodeURIComponent_def by (rule uri_roundtrip [OF e])
  have "parsePlaylistContent encoded
      = Inr \<lparr>containerName = containerName d,
             playlistItems = concat (map path_items ps)\<rparr>"
    unfolding shape parse_manifest [OF enc j1 j2] sp dec by (simp only: sum.case)
  moreover have "map path (concat (map path_items ps)) = map path (playlistItems d)"
    using storable_paths_items [OF ps(2)] by (simp only: ps_def)
  ultimately show ?thesis by simp
qed

subsection \<open>Well-formed text\<close>

lemma wellFormed_plain: "\<not> isSurrogate c \<Longrightarrow> wellFormed (c # cs) = wellFormed cs"
  by (simp add: isSurrogate_def)

lemma surrogate_exclusive: "isLeadingSurrogate c \<Longrightarrow> \<not> isTrailingSurrogate c"
  by (simp add: surrogate_unat)

lemma wellFormed_pair:
  "isLeadingSurrogate c \<Longrightarrow> isTrailingSurrogate d \<Longrightarrow> wellFormed (c # d # cs) = wellFormed cs"
  by simp

lemma wellFormed_cut:
  "wellFormed (a @ c # b) \<Longrightarrow> \<not> isSurrogate c \<Longrightarrow> wellFormed a \<and> wellFormed b"
proof (induction a rule: wellFormed.induct)
  case 1
  then show ?case by (simp add: isSurrogate_def)
next
  case (2 x xs)
  show ?case
  proof (cases "isLeadingSurrogate x")
    case True
    show ?thesis
    proof (cases xs)
      case Nil
      with True "2.prems" show ?thesis by (simp add: isSurrogate_def)
    next
      case (Cons d ds)
      with True "2.prems" have d: "isTrailingSurrogate d" and w: "wellFormed (ds @ c # b)"
        by simp_all
      from "2.IH"(1) [OF True Cons w "2.prems"(2)] True Cons d show ?thesis by simp
    qed
  next
    case False
    with "2.prems" have t: "\<not> isTrailingSurrogate x" and w: "wellFormed (xs @ c # b)"
      by simp_all
    from "2.IH"(2) [OF False w "2.prems"(2)] False t show ?thesis by simp
  qed
qed

lemma wellFormed_append: "wellFormed a \<Longrightarrow> wellFormed b \<Longrightarrow> wellFormed (a @ b)"
  by (induction a rule: wellFormed.induct) (auto split: list.splits if_splits)

lemma wellFormed_map:
  assumes "\<And>c. isLeadingSurrogate (f c) = isLeadingSurrogate c"
    and "\<And>c. isTrailingSurrogate (f c) = isTrailingSurrogate c"
  shows "wellFormed (map f s) = wellFormed s"
  by (induction s rule: wellFormed.induct) (auto simp: assms split: list.splits)

lemma wellFormed_replace_plus: "wellFormed (replace_plus s) = wellFormed s"
  unfolding replace_plus_def
  by (rule wellFormed_map)
     (auto simp: isLeadingSurrogate_def isTrailingSurrogate_def)

lemma wellFormed_lines:
  "wellFormed s \<Longrightarrow> \<not> isSurrogate sep \<Longrightarrow> \<forall>l \<in> set (split_on sep s). wellFormed l"
proof (induction s rule: wellFormed.induct)
  case 1
  then show ?case by simp
next
  case (2 c cs)
  show ?case
  proof (cases "isLeadingSurrogate c")
    case True
    with "2.prems" obtain d ds where cs: "cs = d # ds" and d: "isTrailingSurrogate d"
      and w: "wellFormed ds"
      by (auto split: list.splits)
    from True d "2.prems"(2) have ne: "c \<noteq> sep" "d \<noteq> sep" by (auto simp: isSurrogate_def)
    obtain x xs where x: "split_on sep ds = x # xs"
      using split_on_not_Nil [of sep ds] by (cases "split_on sep ds") auto
    from "2.IH"(1) [OF True cs w "2.prems"(2)] x have "wellFormed x" "\<forall>l \<in> set xs. wellFormed l"
      by simp_all
    with True d ne x show ?thesis unfolding cs by simp
  next
    case False
    with "2.prems" have t: "\<not> isTrailingSurrogate c" and w: "wellFormed cs" by simp_all
    obtain x xs where x: "split_on sep cs = x # xs"
      using split_on_not_Nil [of sep cs] by (cases "split_on sep cs") auto
    from "2.IH"(2) [OF False w "2.prems"(2)] x have "wellFormed x" "\<forall>l \<in> set xs. wellFormed l"
      by simp_all
    with False t x show ?thesis by simp
  qed
qed

lemma match_here_wellFormed:
  assumes "wellFormed (pre @ s)" "match_here s = Some (m1, m2)"
  shows "wellFormed m1"
proof -
  from assms(2) obtain g after where st: "startsWith s (js ''Container=<'')"
    and dw: "dropWhile (\<lambda>c. c \<noteq> GREATER) (drop 11 s) = g # after"
    and m1: "m1 = takeWhile (\<lambda>c. c \<noteq> GREATER) (drop 11 s)"
    by (auto simp: match_here_def Let_def split: if_splits list.splits)
  have g: "g = GREATER"
    using hd_dropWhile [of "\<lambda>c. c \<noteq> GREATER" "drop 11 s"] dw by simp
  have "drop 11 s = m1 @ GREATER # after"
    using takeWhile_dropWhile_id [of "\<lambda>c. c \<noteq> GREATER" "drop 11 s"] dw m1 g by simp
  moreover have "s = take 11 s @ drop 11 s" by simp
  moreover have "take 11 s = js ''Container='' @ [LESS]"
  proof -
    have len: "length (js ''Container=<'') = 11" by (simp add: js_def)
    from st have "take (length (js ''Container=<'')) s = js ''Container=<''"
      by (simp only: startsWith_def)
    then have "take 11 s = js ''Container=<''" unfolding len .
    then show ?thesis by (simp add: js_def)
  qed
  ultimately have "pre @ s = (pre @ js ''Container='') @ LESS # (m1 @ GREATER # after)"
    by simp
  with assms(1) have "wellFormed ((pre @ js ''Container='') @ LESS # (m1 @ GREATER # after))"
    by simp
  then have "wellFormed (m1 @ GREATER # after)"
    by (rule wellFormed_cut [THEN conjunct2])
       (simp add: isSurrogate_def isLeadingSurrogate_def isTrailingSurrogate_def)
  then show ?thesis
    by (rule wellFormed_cut [THEN conjunct1])
       (simp add: isSurrogate_def isLeadingSurrogate_def isTrailingSurrogate_def)
qed

lemma match_container_wellFormed_suffix:
  "wellFormed (pre @ s) \<Longrightarrow> match_container s = Some (m1, m2) \<Longrightarrow> wellFormed m1"
proof (induction s arbitrary: pre)
  case Nil
  then show ?case using match_here_wellFormed [of pre "[]" m1 m2] by simp
next
  case (Cons c cs)
  show ?case
  proof (cases "match_here (c # cs)")
    case None
    with Cons.prems(2) have m: "match_container cs = Some (m1, m2)" by simp
    from Cons.prems(1) have "wellFormed ((pre @ [c]) @ cs)" by simp
    from Cons.IH [OF this m] show ?thesis .
  next
    case (Some m)
    with Cons.prems(2) have "match_here (c # cs) = Some (m1, m2)" by simp
    from match_here_wellFormed [OF Cons.prems(1) this] show ?thesis .
  qed
qed

lemma match_container_wellFormed:
  "wellFormed s \<Longrightarrow> match_container s = Some (m1, m2) \<Longrightarrow> wellFormed m1"
  using match_container_wellFormed_suffix [of "[]" s m1 m2] by simp

lemma hexValue_plain: "hexValue c = Some h \<Longrightarrow> \<not> isSurrogate c"
  by (auto simp: hexValue_def isSurrogate_def isLeadingSurrogate_def isTrailingSurrogate_def
        word_le_nat_alt split: if_splits)

lemma ParseHexOctet_wellFormed:
  assumes "ParseHexOctet cs = Some (b, rest)"
  shows "wellFormed cs = wellFormed rest" "length rest < length cs"
proof -
  from assms obtain x y h l where cs: "cs = x # y # rest"
    and x: "hexValue x = Some h" and y: "hexValue y = Some l"
    by (cases cs rule: ParseHexOctet.cases) (auto split: option.splits)
  show "wellFormed cs = wellFormed rest"
    unfolding cs
    by (simp only: wellFormed_plain [OF hexValue_plain [OF x]]
          wellFormed_plain [OF hexValue_plain [OF y]])
  show "length rest < length cs" unfolding cs by simp
qed

lemma percent_plain: "\<not> isSurrogate PERCENT"
  by (simp add: isSurrogate_def isLeadingSurrogate_def isTrailingSurrogate_def)

lemma continuationOctets_wellFormed:
  "continuationOctets n s = Some (bs, r) \<Longrightarrow> wellFormed s = wellFormed r \<and> length r \<le> length s"
proof (induction n s arbitrary: bs r rule: continuationOctets.induct)
  case (1 s)
  then show ?case by simp
next
  case (2 n)
  then show ?case by simp
next
  case (3 n c cs)
  from "3.prems" obtain b rest bs' where c: "c = PERCENT"
    and p: "ParseHexOctet cs = Some (b, rest)"
    and q: "continuationOctets n rest = Some (bs', r)"
    by (auto split: if_splits option.splits simp del: ParseHexOctet.simps)
  from c have nc: "\<not> c \<noteq> PERCENT" by simp
  from "3.IH" [OF nc p refl q] ParseHexOctet_wellFormed [OF p] c
  show ?case by (simp add: wellFormed_plain [OF percent_plain] del: wellFormed.simps)
qed

lemma utf8_decode_scalar:
  assumes "utf8_decode bs = Some v"
  shows "v < 0x110000" "\<not> (0xD800 \<le> v \<and> v \<le> 0xDFFF)"
proof -
  have "v < 0x110000 \<and> \<not> (0xD800 \<le> v \<and> v \<le> 0xDFFF)"
    using assms
  proof (cases bs rule: utf8_decode.cases)
    case (1 b0 b1)
    with assms have "v = (b0 - 0xC0) * 0x40 + (b1 - 0x80)" "b0 \<le> 0xDF" "b1 \<le> 0xBF"
      by (auto simp: Let_def isContinuation_def split: if_splits)
    then show ?thesis by linarith
  next
    case (2 b0 b1 b2)
    with assms have "v = (b0 - 0xE0) * 0x1000 + (b1 - 0x80) * 0x40 + (b2 - 0x80)"
      "b0 \<le> 0xEF" "b1 \<le> 0xBF" "b2 \<le> 0xBF" "\<not> (0xD800 \<le> v \<and> v \<le> 0xDFFF)"
      by (auto simp: Let_def isContinuation_def split: if_splits)
    then show ?thesis by linarith
  next
    case (3 b0 b1 b2 b3)
    with assms have "0x10000 \<le> v" "v \<le> 0x10FFFF"
      by (auto simp: Let_def isContinuation_def split: if_splits)
    then show ?thesis by linarith
  qed (use assms in simp_all)
  then show "v < 0x110000" "\<not> (0xD800 \<le> v \<and> v \<le> 0xDFFF)" by simp_all
qed

lemma unat_of_nat_jschar: "v < 0x10000 \<Longrightarrow> unat (of_nat v :: jschar) = v"
  by (simp add: unat_of_nat)

lemma UTF16EncodeCodePoint_wellFormed:
  assumes "v < 0x110000" "\<not> (0xD800 \<le> v \<and> v \<le> 0xDFFF)"
  shows "wellFormed (UTF16EncodeCodePoint v @ r) = wellFormed r"
proof (cases "v \<le> 0xFFFF")
  case True
  then have u: "unat (of_nat v :: jschar) = v" by (simp add: unat_of_nat_jschar)
  have "\<not> isSurrogate (of_nat v :: jschar)"
    unfolding isSurrogate_def surrogate_unat u using assms(2) by linarith
  then show ?thesis
    using True by (simp add: UTF16EncodeCodePoint_def wellFormed_plain del: wellFormed.simps)
next
  case False
  define q where "q = (v - 0x10000) div 0x400"
  define m where "m = (v - 0x10000) mod 0x400"
  have q: "q < 0x400" using assms(1) False unfolding q_def by simp
  have m: "m < 0x400" unfolding m_def by simp
  have "unat (of_nat (q + 0xD800) :: jschar) = q + 0xD800"
    using q by (intro unat_of_nat_jschar) simp
  then have lead: "isLeadingSurrogate (of_nat (q + 0xD800))"
    unfolding surrogate_unat using q by simp
  have "unat (of_nat (m + 0xDC00) :: jschar) = m + 0xDC00"
    using m by (intro unat_of_nat_jschar) simp
  then have trail: "isTrailingSurrogate (of_nat (m + 0xDC00))"
    unfolding surrogate_unat using m by simp
  have "UTF16EncodeCodePoint v = [of_nat (q + 0xD800), of_nat (m + 0xDC00)]"
    using False by (simp add: UTF16EncodeCodePoint_def q_def m_def)
  then show ?thesis
    by (simp only: append_Cons append_Nil wellFormed_pair [OF lead trail])
qed

lemma Decode_wellFormed:
  "Decode s = Inr r \<Longrightarrow> wellFormed s \<Longrightarrow> wellFormed r"
proof (induction s arbitrary: r rule: length_induct)
  case (1 s)
  note ih = "1.IH" [rule_format]
  show ?case
  proof (cases s)
    case Nil
    with "1.prems" show ?thesis by simp
  next
    case (Cons c cs)
    show ?thesis
    proof (cases "c = PERCENT")
      case True
      with "1.prems"(1) Cons obtain b rest where p: "ParseHexOctet cs = Some (b, rest)"
        by (auto split: option.splits simp del: ParseHexOctet.simps)
      note pw = ParseHexOctet_wellFormed [OF p]
      from "1.prems"(2) Cons True pw(1) have wrest: "wellFormed rest"
        by (simp add: wellFormed_plain [OF percent_plain] del: wellFormed.simps)
      show ?thesis
      proof (cases "leadingOnes b = 0")
        case z: True
        with "1.prems"(1) Cons True p obtain r' where d: "Decode rest = Inr r'"
          and r: "r = of_nat b # r'"
          by (auto split: sum.splits simp del: ParseHexOctet.simps)
        from pw(2) Cons have "length rest < length s" by simp
        from ih [OF this d wrest] have w: "wellFormed r'" .
        from z have b: "b < 0x80" by (simp add: leadingOnes_def split: if_splits)
        then have "unat (of_nat b :: jschar) = b" by (intro unat_of_nat_jschar) simp
        with b have "\<not> isSurrogate (of_nat b :: jschar)"
          unfolding isSurrogate_def surrogate_unat by simp
        with w show ?thesis
          unfolding r by (simp add: wellFormed_plain del: wellFormed.simps)
      next
        case nz: False
        with "1.prems"(1) Cons True p obtain bs rest' v r' where
          c: "continuationOctets (leadingOnes b - 1) rest = Some (bs, rest')"
          and u: "utf8_decode (b # bs) = Some v"
          and d: "Decode rest' = Inr r'"
          and r: "r = UTF16EncodeCodePoint v @ r'"
          by (auto split: sum.splits option.splits if_splits
                simp del: ParseHexOctet.simps utf8_decode.simps)
        note cw = continuationOctets_wellFormed [OF c]
        from cw pw(2) Cons have "length rest' < length s" by simp
        moreover from cw wrest have "wellFormed rest'" by simp
        ultimately have w: "wellFormed r'" using ih d by blast
        show ?thesis
          unfolding r UTF16EncodeCodePoint_wellFormed [OF utf8_decode_scalar [OF u]]
          by (rule w)
      qed
    next
      case False
      note plain = False
      with "1.prems"(1) Cons obtain r' where d: "Decode cs = Inr r'" and r: "r = c # r'"
        by (auto split: sum.splits)
      show ?thesis
      proof (cases "isLeadingSurrogate c")
        case True
        with "1.prems"(2) Cons obtain x ds where cs: "cs = x # ds"
          and x: "isTrailingSurrogate x" and w: "wellFormed ds"
          by (auto split: list.splits)
        from x have "x \<noteq> PERCENT" by (auto simp: isTrailingSurrogate_def)
        with d cs obtain r'' where d': "Decode ds = Inr r''" and r': "r' = x # r''"
          by (auto split: sum.splits)
        from Cons cs have "length ds < length s" by simp
        from ih [OF this d' w] have "wellFormed r''" .
        with True x show ?thesis unfolding r r' by simp
      next
        case False
        with "1.prems"(2) Cons have t: "\<not> isTrailingSurrogate c" and w: "wellFormed cs"
          by simp_all
        from Cons have "length cs < length s" by simp
        from ih [OF this d w] have "wellFormed r'" .
        with False t show ?thesis unfolding r by simp
      qed
    qed
  qed
qed

lemma isUnescaped_no_surrogate: "isUnescaped c \<Longrightarrow> \<not> isSurrogate c"
  by (auto simp: isUnescaped_def isSurrogate_def isLeadingSurrogate_def
        isTrailingSurrogate_def word_le_nat_alt)

lemma Encode_wellFormed: "wellFormed s \<Longrightarrow> \<exists>e. Encode s = Inr e"
proof (induction s rule: wellFormed.induct)
  case 1
  then show ?case by simp
next
  case (2 c cs)
  show ?case
  proof (cases "isLeadingSurrogate c")
    case True
    with "2.prems" obtain d ds where cs: "cs = d # ds" and d: "isTrailingSurrogate d"
      and w: "wellFormed ds"
      by (auto split: list.splits)
    from "2.IH"(1) [OF True cs w] obtain e where "Encode ds = Inr e" by blast
    moreover from True have "\<not> isUnescaped c" "\<not> isTrailingSurrogate c"
      using isUnescaped_no_surrogate [of c] surrogate_exclusive [of c]
      by (auto simp: isSurrogate_def)
    ultimately show ?thesis using True d unfolding cs by simp
  next
    case False
    with "2.prems" have t: "\<not> isTrailingSurrogate c" and w: "wellFormed cs" by simp_all
    from "2.IH"(2) [OF False w] obtain e where "Encode cs = Inr e" by blast
    with False t show ?thesis by simp
  qed
qed

lemma parse_lines_wellFormed:
  assumes "parse_lines ls n items = Inr d" "\<forall>l \<in> set ls. wellFormed l" "wellFormed n"
  shows "wellFormed (containerName d)"
  using assms
proof (induction ls arbitrary: n items)
  case Nil
  then show ?case by auto
next
  case (Cons l ls)
  from Cons.prems(2) have rest: "\<forall>l \<in> set ls. wellFormed l" and l: "wellFormed l"
    by simp_all
  show ?case
  proof (cases "\<not> startsWith l (js ''#EXTM3U'') \<and> startsWith l (js ''Container='')
      \<and> match_container l \<noteq> None")
    case False
    with Cons.prems(1) have "parse_lines ls n items = Inr d"
      by (auto split: if_splits option.splits)
    from Cons.IH [OF this rest Cons.prems(3)] show ?thesis .
  next
    case True
    then obtain m1 m2 where m: "match_container l = Some (m1, m2)" by auto
    with True Cons.prems(1) obtain n' where n': "Decode (replace_plus m1) = Inr n'"
      and p: "parse_lines ls n' (items @ concat (map path_items (split_on PIPE m2))) = Inr d"
      by (auto simp: decodeURIComponent_def split: sum.splits)
    have "wellFormed (replace_plus m1)"
      unfolding wellFormed_replace_plus by (rule match_container_wellFormed [OF l m])
    from Decode_wellFormed [OF n' this] have "wellFormed n'" .
    from Cons.IH [OF p rest this] show ?thesis .
  qed
qed

text \<open>
  Claim C1. For every document that \<open>parsePlaylistContent\<close> produces from the text of a
  file, with a non-empty list of items, \<open>generatePlaylistContent\<close> returns a text, and
  parsing that text yields a document with the same container name and the same paths
  in the same order. The text of a file is well formed; so is then the parsed name, and
  \<open>encodeURIComponent\<close> does not raise on it.
\<close>

theorem C1_roundtrip:
  assumes "wellFormed raw"
    and "parsePlaylistContent raw = Inr d"
    and "playlistItems d \<noteq> []"
  shows "\<exists>encoded d'. generatePlaylistContent d = Inr encoded
           \<and> parsePlaylistContent encoded = Inr d'
           \<and> containerName d' = containerName d
           \<and> map path (playlistItems d') = map path (playlistItems d)"
proof -
  have lf: "\<not> isSurrogate LF"
    by (simp add: isSurrogate_def isLeadingSurrogate_def isTrailingSurrogate_def)
  have "\<forall>l \<in> set (filter (\<lambda>l. trim l \<noteq> []) (split_on LF raw)). wellFormed l"
    using wellFormed_lines [OF assms(1) lf] by simp
  from parse_lines_wellFormed [OF assms(2) [unfolded parsePlaylistContent_def] this]
  have "wellFormed (containerName d)" by simp
  from Encode_wellFormed [OF this] obtain e where e: "Encode (containerName d) = Inr e" ..
  from parsed_document(2) [OF assms(2,3)] have "containerName d \<noteq> []" .
  with assms(3) e obtain encoded where g: "generatePlaylistContent d = Inr encoded"
    by (simp add: generatePlaylistContent_def encodeURIComponent_def Let_def)
  from roundtrip_of_encoded_document [OF assms(2,3) g] g show ?thesis by blast
qed

theorem C1_roundtrip_witness:
  "wellFormed roundtrip_content
   \<and> parsePlaylistContent roundtrip_content = Inr roundtrip_document
   \<and> generatePlaylistContent roundtrip_document = Inr roundtrip_encoded
   \<and> (\<exists>d'. parsePlaylistContent roundtrip_encoded = Inr d'
          \<and> containerName d' = js ''Morning Show + >''
          \<and> map path (playlistItems d') = [js ''C:'' @ [BACKSLASH] @ js ''a.mp3'', js ''b.wav''])"
proof -
  have w: "wellFormed roundtrip_content"
    by code_simp
  have p: "parsePlaylistContent roundtrip_content = Inr roundtrip_document"
    by code_simp
  have g: "generatePlaylistContent roundtrip_document = Inr roundtrip_encoded"
    by code_simp
  have n: "playlistItems roundtrip_document \<noteq> []"
    by (simp add: roundtrip_document_def)
  from C1_roundtrip [OF w p n] w p g show ?thesis
    by (auto simp: roundtrip_document_def)
qed

text \<open>
  The hypothesis on the text is needed: a name with an unpaired surrogate, which no
  file text holds, is parsed and then rejected by \<open>encodeURIComponent\<close>.
\<close>

lemma unpaired_surrogate_not_encoded:
  "\<not> wellFormed unpaired_content
   \<and> parsePlaylistContent unpaired_content
       = Inr \<lparr>containerName = [0xD800],
              playlistItems = [\<lparr>path = js ''a'', filename = js ''a''\<rparr>]\<rparr>
   \<and> generatePlaylistContent
         \<lparr>containerName = [0xD800],
          playlistItems = [\<lparr>path = js ''a'', filename = js ''a''\<rparr>]\<rparr>
       = Inl URIError"
  by code_simp

subsection \<open>Malformed input\<close>

lemma parse_lines_step:
  "parse_lines (l # ls) n items =
     (case container_line l of
        None \<Rightarrow> parse_lines ls n items
      | Some (m1, m2) \<Rightarrow>
          (case decodeURIComponent (replace_plus m1) of
             Inl e \<Rightarrow> Inl e
           | Inr n' \<Rightarrow>
               parse_lines ls n' (items @ concat (map path_items (split_on PIPE m2)))))"
  by (simp add: container_line_def)

lemma parse_lines_returns:
  "(\<exists>d. parse_lines ls n items = Inr d)
     \<longleftrightarrow> (\<forall>nm \<in> set (map (\<lambda>(m1, m2). replace_plus m1) (List.map_filter container_line ls)).
            \<exists>r. decodeURIComponent nm = Inr r)"
proof (induction ls arbitrary: n items)
  case Nil
  then show ?case by (simp add: List.map_filter_simps)
next
  case (Cons l ls)
  show ?case
  proof (cases "container_line l")
    case None
    with Cons show ?thesis
      by (simp add: parse_lines_step List.map_filter_simps del: parse_lines.simps)
  next
    case (Some m)
    obtain m1 m2 where m: "m = (m1, m2)" by (cases m)
    show ?thesis
    proof (cases "decodeURIComponent (replace_plus m1)")
      case (Inl e)
      with Some m show ?thesis
        by (simp add: parse_lines_step List.map_filter_simps del: parse_lines.simps)
    next
      case (Inr n')
      with Some m Cons [of n' "items @ concat (map path_items (split_on PIPE m2))"]
      show ?thesis
        by (simp add: parse_lines_step List.map_filter_simps del: parse_lines.simps)
    qed
  qed
qed

text \<open>
  Claim C2 says that \<open>parsePlaylistContent\<close> raises on no input. It raises \<open>URIError\<close>
  on a container line whose name holds a \<open>%\<close> that begins no escape.
\<close>

theorem C2_decode_counterexample:
  "parsePlaylistContent (js ''Container=<%>a'') = Inl URIError"
  by code_simp

text \<open>
  Claim C2, amended. \<open>parsePlaylistContent\<close> raises, and then \<open>URIError\<close>, exactly when
  \<open>decodeURIComponent\<close> rejects the name of a line that passes the test of the loop: a
  non-blank line that does not start with \<open>#EXTM3U\<close>, starts with \<open>Container=\<close> and
  matches the container pattern. On every other input it returns a document, whatever
  the other lines and the paths hold; the text \<open>garbage\<close> followed by a newline yields
  the document with empty name and no items.
\<close>

theorem C2_decode_raises_on_names_only:
  "((\<exists>d. parsePlaylistContent raw = Inr d)
      \<longleftrightarrow> (\<forall>n \<in> set (container_names raw). \<exists>r. decodeURIComponent n = Inr r))
   \<and> (parsePlaylistContent raw = Inl URIError
      \<longleftrightarrow> (\<exists>n \<in> set (container_names raw). decodeURIComponent n = Inl URIError))
   \<and> parsePlaylistContent (js ''garbage'' @ [LF])
       = Inr \<lparr>containerName = [], playlistItems = []\<rparr>"
proof (intro conjI)
  show r: "(\<exists>d. parsePlaylistContent raw = Inr d)
      \<longleftrightarrow> (\<forall>n \<in> set (container_names raw). \<exists>r. decodeURIComponent n = Inr r)"
    unfolding parsePlaylistContent_def container_names_def by (rule parse_lines_returns)
  have e: "x = Inl URIError \<longleftrightarrow> \<not> (\<exists>y. x = Inr y)" for x :: "error + 'a"
    by (cases x) (auto intro: error.exhaust)
  show "parsePlaylistContent raw = Inl URIError
      \<longleftrightarrow> (\<exists>n \<in> set (container_names raw). decodeURIComponent n = Inl URIError)"
    unfolding e r by blast
  show "parsePlaylistContent (js ''garbage'' @ [LF])
       = Inr \<lparr>containerName = [], playlistItems = []\<rparr>"
    by code_simp
qed

theorem C2_decode_raises_on_names_only_witness:
  "container_names discount_content = [js ''50%25 off'']
   \<and> decodeURIComponent (js ''50%25 off'') = Inr (js ''50% off'')
   \<and> (\<exists>d. parsePlaylistContent discount_content = Inr d)"
proof -
  have n: "container_names discount_content = [js ''50%25 off'']"
    by code_simp
  have d: "decodeURIComponent (js ''50%25 off'') = Inr (js ''50% off'')"
    by code_simp
  have a: "\<forall>n \<in> set (container_names discount_content). \<exists>r. decodeURIComponent n = Inr r"
    unfolding n using d by simp
  with C2_decode_raises_on_names_only [of discount_content]
  have "\<exists>d. parsePlaylistContent discount_content = Inr d"
    by blast
  with n d show ?thesis by (intro conjI)
qed

subsection \<open>The container name\<close>

text \<open>
  Claim C9. For a file of the format line and a container line with the encoded name
  \<open>enc\<close> (not empty, without \<open>>\<close> and newline) and the path text \<open>paths\<close> (not empty,
  without line terminators), the container name of the parsed document is \<open>enc\<close> with
  every \<open>+\<close> replaced by a space and then percent-decoded; the parser raises exactly
  when that decoding does. The file of the claim, with the name \<open>Morning+Show\<close> and two
  paths, parses to the name \<open>Morning Show\<close> and the two items with the display names
  \<open>a\<close> and \<open>b\<close>.
\<close>

theorem C9_name_decoding:
  assumes "enc \<noteq> []" "GREATER \<notin> set enc" "LF \<notin> set enc" "paths \<noteq> []"
    "\<forall>c \<in> set paths. \<not> isLineTerminator c"
  shows "(case parsePlaylistContent
                 (js ''#EXTM3U'' @ [LF] @ js ''Container=<'' @ enc @ [GREATER] @ paths @ [LF]) of
            Inl e \<Rightarrow> Inl e
          | Inr d \<Rightarrow> Inr (containerName d))
         = decodeURIComponent (replace_plus enc)
    \<and> parsePlaylistContent morning_content
        = Inr \<lparr>containerName = js ''Morning Show'',
               playlistItems =
                 [\<lparr>path = js ''C:'' @ [BACKSLASH] @ js ''a.mp3'', filename = js ''a''\<rparr>,
                  \<lparr>path = js ''C:'' @ [BACKSLASH] @ js ''b.wav'', filename = js ''b''\<rparr>]\<rparr>"
proof
  show "(case parsePlaylistContent
                 (js ''#EXTM3U'' @ [LF] @ js ''Container=<'' @ enc @ [GREATER] @ paths @ [LF]) of
            Inl e \<Rightarrow> Inl e
          | Inr d \<Rightarrow> Inr (containerName d))
         = decodeURIComponent (replace_plus enc)"
    unfolding parse_manifest [OF assms]
    by (cases "decodeURIComponent (replace_plus enc)") simp_all
  show "parsePlaylistContent morning_content
        = Inr \<lparr>containerName = js ''Morning Show'',
               playlistItems =
                 [\<lparr>path = js ''C:'' @ [BACKSLASH] @ js ''a.mp3'', filename = js ''a''\<rparr>,
                  \<lparr>path = js ''C:'' @ [BACKSLASH] @ js ''b.wav'', filename = js ''b''\<rparr>]\<rparr>"
    by code_simp
qed

theorem C9_name_decoding_witness:
  "(case parsePlaylistContent
           (js ''#EXTM3U'' @ [LF] @ js ''Container=<'' @ js ''1%2B1+%3D+2'' @ [GREATER]
            @ js ''x.mp3'' @ [LF]) of
      Inl e \<Rightarrow> Inl e
    | Inr d \<Rightarrow> Inr (containerName d))
   = Inr (js ''1+1 = 2'')"
proof -
  have h: "js ''1%2B1+%3D+2'' \<noteq> []" "GREATER \<notin> set (js ''1%2B1+%3D+2'')"
    "LF \<notin> set (js ''1%2B1+%3D+2'')" "js ''x.mp3'' \<noteq> []"
    "\<forall>c \<in> set (js ''x.mp3''). \<not> isLineTerminator c"
    by (simp_all add: js_simps isLineTerminator_def)
  have d: "decodeURIComponent (replace_plus (js ''1%2B1+%3D+2'')) = Inr (js ''1+1 = 2'')"
    by code_simp
  from C9_name_decoding [OF h] show ?thesis
    unfolding d by simp
qed

subsection \<open>Display names\<close>

lemma split_on_last_part:
  "\<exists>w. w \<noteq> [] \<and> split_on sep (a @ sep # b) = w @ split_on sep b"
proof (induction a)
  case Nil
  have "split_on sep ([] @ sep # b) = [[]] @ split_on sep b" by simp
  then show ?case by blast
next
  case (Cons c a)
  then obtain x w where w: "split_on sep (a @ sep # b) = (x # w) @ split_on sep b"
    by (metis list.exhaust)
  show ?case
  proof (cases "c = sep")
    case True
    with w have "split_on sep ((c # a) @ sep # b) = ([] # x # w) @ split_on sep b" by simp
    then show ?thesis by blast
  next
    case False
    with w have "split_on sep ((c # a) @ sep # b) = ((c # x) # w) @ split_on sep b" by simp
    then show ?thesis by blast
  qed
qed

lemma fullFilename_backslash:
  assumes "BACKSLASH \<notin> set base" "base \<noteq> []"
  shows "fullFilename (dir @ BACKSLASH # base) = base"
proof -
  obtain w where "split_on BACKSLASH (dir @ BACKSLASH # base) = w @ split_on BACKSLASH base"
    using split_on_last_part [of BACKSLASH dir base] by blast
  then have "split_on BACKSLASH (dir @ BACKSLASH # base) = w @ [base]"
    by (simp add: split_on_no_sep [OF assms(1)])
  then show ?thesis
    using assms(2) by (simp add: fullFilename_def truthy_def pop_def)
qed

lemma removeFileExtension_extension:
  assumes "ext \<noteq> []" "DOT \<notin> set ext" "SLASH \<notin> set ext"
  shows "removeFileExtension (stem @ DOT # ext) = stem"
  using assms by (induction stem) (auto simp: list_all_iff)

lemma removeFileExtension_no_dot: "DOT \<notin> set s \<Longrightarrow> removeFileExtension s = s"
  by (induction s) auto

text \<open>
  Claim C3 says that the display name of an entry is the last segment of its path,
  for both separators, without its extension. The three lemmas above give this for a
  path whose last separator is a backslash. For a path that uses forward slashes only,
  \<open>p.split("\\").pop()\<close> is the whole path, which is not empty, so the alternative
  \<open>p.split("/").pop()\<close> is never taken: the parser gives \<open>/music/a.mp3\<close> the display
  name \<open>/music/a\<close>, not \<open>a\<close>. \<open>addFileToPlaylist\<close>, which takes the display name
  from the name of the file, gives the same path the display name \<open>a\<close>.
\<close>

theorem C3_forward_slash_display_name:
  "parsePlaylistContent (js ''#EXTM3U'' @ [LF] @ js ''Container=<X>/music/a.mp3'' @ [LF])
     = Inr \<lparr>containerName = js ''X'',
            playlistItems = [\<lparr>path = js ''/music/a.mp3'', filename = js ''/music/a''\<rparr>]\<rparr>
   \<and> document (fst (addFileToPlaylist file_a unix_session))
       = \<lparr>containerName = js ''X'',
          playlistItems = [\<lparr>path = js ''/music/a.mp3'', filename = js ''a''\<rparr>]\<rparr>
   \<and> generatePlaylistContent (document (fst (addFileToPlaylist file_a unix_session)))
       = Inr (js ''#EXTM3U'' @ [LF] @ js ''Container=<X>/music/a.mp3'' @ [LF])"
  by code_simp

subsection \<open>Encoding a playlist without entries\<close>

text \<open>
  Claim C5. For every document whose list of items is empty, whatever its container
  name, \<open>generatePlaylistContent\<close> returns the format line \<open>#EXTM3U\<close> followed by a
  newline and nothing else: there is no container line. The second equation spells
  the eight code units of that text out.
\<close>

theorem C5_encode_empty_items:
  "playlistItems d = [] \<Longrightarrow>
     generatePlaylistContent d = Inr (js ''#EXTM3U'' @ [LF])
     \<and> js ''#EXTM3U'' @ [LF] = [0x23, 0x45, 0x58, 0x54, 0x4D, 0x33, 0x55, 0x0A]"
  by (simp add: generatePlaylistContent_def js_simps)

theorem C5_encode_empty_items_witness:
  "generatePlaylistContent \<lparr>containerName = js ''X'', playlistItems = []\<rparr>
     = Inr [0x23, 0x45, 0x58, 0x54, 0x4D, 0x33, 0x55, 0x0A]"
  using C5_encode_empty_items [of "\<lparr>containerName = js ''X'', playlistItems = []\<rparr>"]
  by simp

subsection \<open>Reordering moves an entry\<close>

lemma actualStart_nat: "actualStart (int i) n = min i n"
  by (simp add: actualStart_def)

text \<open>
  Claim C4. When \<open>fromIndex\<close> and \<open>toIndex\<close> are both positions of the list, the
  update of \<open>handleDrop\<close> takes the entry at \<open>fromIndex\<close> out and puts it back at
  position \<open>toIndex\<close> of the remaining sequence: a move, not a swap. For the list
  \<open>[A, B, C]\<close>, moving position 0 to position 2 gives \<open>[B, C, A]\<close>.
\<close>

theorem C4_reorder_moves:
  "i < length xs \<Longrightarrow> j < length xs \<Longrightarrow>
     handleDrop (Some (int i)) (int j) xs
       = Some (let remaining = take i xs @ drop (Suc i) xs
               in take j remaining @ xs ! i # drop j remaining)"
proof -
  assume i: "i < length xs" and j: "j < length xs"
  have del: "splice_delete1 (int i) xs = take i xs @ drop (Suc i) xs"
    using i by (simp add: splice_delete1_def actualStart_nat min_def)
  have len: "length (take i xs @ drop (Suc i) xs) = length xs - 1"
    using i by simp
  show ?thesis
  proof (cases "i = j")
    case True
    have "take i xs @ xs ! i # drop (Suc i) xs = xs"
      using i by (simp add: id_take_nth_drop [symmetric])
    with True i show ?thesis
      by (simp add: handleDrop_def Let_def min_def)
  next
    case False
    have m: "min j (length xs - 1) = j" using j by simp
    have "splice_insert (int j) (xs ! i) (take i xs @ drop (Suc i) xs)
            = take j (take i xs @ drop (Suc i) xs) @ xs ! i # drop j (take i xs @ drop (Suc i) xs)"
      unfolding splice_insert_def actualStart_nat len m Let_def ..
    with False i show ?thesis
      by (simp add: handleDrop_def del Let_def)
  qed
qed

theorem C4_reorder_moves_witness:
  "handleDrop (Some 0) 2 [js ''A'', js ''B'', js ''C''] = Some [js ''B'', js ''C'', js ''A'']"
  using C4_reorder_moves [of 0 "[js ''A'', js ''B'', js ''C'']" 2] by simp

subsection \<open>Removing and adding a file\<close>

text \<open>
  Claim C10. \<open>removeFileFromPlaylist\<close> keeps exactly the entries whose path differs
  from the resolved path of the file: afterwards no entry with that path is left,
  however many there were, and a state without such an entry is not changed.
\<close>

theorem C10_remove_deletes_all:
  "playlistItems (document (removeFileFromPlaylist file s))
     = filter (\<lambda>it. path it \<noteq> buildPathForFile file (selectedDirectory s))
         (playlistItems (document s))
   \<and> (\<forall>it \<in> set (playlistItems (document (removeFileFromPlaylist file s))).
         path it \<noteq> buildPathForFile file (selectedDirectory s))
   \<and> ((\<forall>it \<in> set (playlistItems (document s)).
          path it \<noteq> buildPathForFile file (selectedDirectory s))
        \<longrightarrow> removeFileFromPlaylist file s = s)"
  by (simp add: removeFileFromPlaylist_def Let_def)

theorem C10_remove_deletes_all_witness:
  "parsePlaylistContent example_saved = Inr (document example_session)
   \<and> playlistItems (document (removeFileFromPlaylist file_a example_session))
       = [\<lparr>path = js ''T:'' @ [BACKSLASH] @ js ''b.mp3'', filename = js ''b''\<rparr>]
   \<and> removeFileFromPlaylist file_c example_session = example_session"
  using C10_remove_deletes_all [of file_a example_session]
    C10_remove_deletes_all [of file_c example_session]
  by code_simp





subsection \<open>Saving and resetting\<close>

lemma example_selected:
  "selectedPlaylist example_session = Some \<lparr>file_id = js ''1'', file_name = js ''list.m3u8''\<rparr>"
  by (simp add: example_session_def)

lemma example_generate:
  "generatePlaylistContent (document example_session) = Inr example_saved"
  by code_simp




lemma savePlaylist_rejected:
  assumes "selectedPlaylist s = Some pl"
    and "generatePlaylistContent (document s) = Inr content"
    and "updateFile (file_id pl) content = Rejected message"
  shows "savePlaylist h u updateFile s =
     (if isAuthError (saveErrorMessage message)
      then (s\<lparr>isSaving := False, saveError := None\<rparr>, if h then [OnAuthError] else [])
      else (s\<lparr>isSaving := False, saveError := Some (saveErrorMessage message)\<rparr>, []))"
  using assms
  by (simp add: savePlaylist_def save_failed_def Let_def)

text \<open>
  Claim C7 says that after a failed remote update the document is what it was before
  the call. When the update is rejected with an authentication message (the storage
  client throws it on status 401), \<open>savePlaylist\<close> calls \<open>onAuthError\<close>; the page then
  shows the sign-in screen in place of the component, and the document is gone.
\<close>

theorem C7_save_failure_counterexample:
  "generatePlaylistContent (document example_session) = Inr example_saved
   \<and> rejecting_update (js ''1'') example_saved
       = Rejected (Some (js ''Authentication expired. Please sign in again.''))
   \<and> playlistManager example_page = Some example_session
   \<and> page_savePlaylist (js ''URI malformed'') rejecting_update example_page
       = \<lparr>accessToken = None, playlistManager = None\<rparr>"
  by code_simp

text \<open>
  Claim C7, amended. Let the remote update of \<open>savePlaylist\<close> be rejected. If the
  message of the rejection (or the default text, when it has none) names no
  authentication error, the component stays, its document and its stored original text
  are what they were before the call, and the message is stored in \<open>saveError\<close>. If it
  names an authentication error, nothing is stored in \<open>saveError\<close>: the page clears the
  access token and the component goes, with its document.
\<close>

theorem C7_save_failure:
  assumes "playlistManager p = Some s"
    and "selectedPlaylist s = Some pl"
    and "generatePlaylistContent (document s) = Inr content"
    and "updateFile (file_id pl) content = Rejected message"
  shows "(\<not> isAuthError (saveErrorMessage message) \<longrightarrow>
            (\<exists>s'. page_savePlaylist u updateFile p = p\<lparr>playlistManager := Some s'\<rparr>
                  \<and> document s' = document s
                  \<and> originalContent s' = originalContent s
                  \<and> saveError s' = Some (saveErrorMessage message)))
    \<and> (isAuthError (saveErrorMessage message) \<longrightarrow>
            page_savePlaylist u updateFile p
              = p\<lparr>accessToken := None, playlistManager := None\<rparr>)"
proof -
  have sp: "savePlaylist True u updateFile s =
     (if isAuthError (saveErrorMessage message)
      then (s\<lparr>isSaving := False, saveError := None\<rparr>, [OnAuthError])
      else (s\<lparr>isSaving := False, saveError := Some (saveErrorMessage message)\<rparr>, []))"
    using savePlaylist_rejected [of s pl content updateFile message True u, OF assms(2,3,4)]
    by simp
  have "\<exists>s'. p\<lparr>playlistManager := Some (s\<lparr>isSaving := False,
            saveError := Some (saveErrorMessage message)\<rparr>)\<rparr>
          = p\<lparr>playlistManager := Some s'\<rparr>
        \<and> document s' = document s \<and> originalContent s' = originalContent s
        \<and> saveError s' = Some (saveErrorMessage message)"
    by (rule exI [of _ "s\<lparr>isSaving := False,
          saveError := Some (saveErrorMessage message)\<rparr>"]) simp
  then show ?thesis
    by (simp add: page_savePlaylist_def assms(1) sp handleAuthError_def)
qed

theorem C7_save_failure_witness:
  "(\<exists>s'. page_savePlaylist (js ''URI malformed'') failing_update example_page
           = example_page\<lparr>playlistManager := Some s'\<rparr>
        \<and> document s' = document example_session
        \<and> saveError s' = Some (js ''Failed to update file: 500''))
   \<and> page_savePlaylist (js ''URI malformed'') rejecting_update example_page
       = example_page\<lparr>accessToken := None, playlistManager := None\<rparr>"
proof -
  have m: "playlistManager example_page = Some example_session"
    by (simp add: example_page_def)
  have rej: "failing_update (file_id \<lparr>file_id = js ''1'', file_name = js ''list.m3u8''\<rparr>)
      example_saved = Rejected (Some (js ''Failed to update file: 500''))"
    by (simp add: failing_update_def)
  have rej': "rejecting_update (file_id \<lparr>file_id = js ''1'', file_name = js ''list.m3u8''\<rparr>)
      example_saved = Rejected (Some (js ''Authentication expired. Please sign in again.''))"
    by (simp add: rejecting_update_def)
  have a: "\<not> isAuthError (saveErrorMessage (Some (js ''Failed to update file: 500'')))"
    by code_simp
  have a': "isAuthError (saveErrorMessage
      (Some (js ''Authentication expired. Please sign in again.'')))"
    by code_simp
  have e: "saveErrorMessage (Some (js ''Failed to update file: 500''))
      = js ''Failed to update file: 500''"
    by code_simp
  from C7_save_failure [of example_page example_session _ example_saved failing_update _
      "js ''URI malformed''", OF m example_selected example_generate rej]
    C7_save_failure [of example_page example_session _ example_saved rejecting_update _
      "js ''URI malformed''", OF m example_selected example_generate rej']
    a a'
  show ?thesis unfolding e by blast
qed






end
